theory Spec2Isabelle
  imports Complex_Main
begin

section \<open>Label correction during training: the driver of src/animal/train.py\<close>

text \<open>
  The driver \<^verbatim>\<open>main\<close> trains a classifier for \<^verbatim>\<open>args.nepoch\<close> epochs. Each epoch
  it records the softmax output of every example it was given into a ring of 30 slots
  (\<^verbatim>\<open>output_record\<close>), records the validation accuracy into a ring of 30 scalars
  (\<^verbatim>\<open>val_record\<close>), selects the ten slots of highest accuracy, and from epoch 40 on
  hands the mean of the selected slots to \<^verbatim>\<open>lrt_correction\<close> and writes the labels
  it returns back into the training set.

  Tensors are nested lists, floating-point numbers are modelled as reals, and Python
  exceptions are values: a failing step returns the exception together with the state
  at the moment it was raised. What the network computes and what the data loader's
  sampler draws are inputs of the model (\<open>epoch_in\<close>).
\<close>

subsection \<open>Python exceptions\<close>

datatype error = ZeroDivisionError | ValueError | IndexError

definition then_do :: "('e + 'a) \<Rightarrow> ('a \<Rightarrow> 'e + 'b) \<Rightarrow> 'e + 'b" where
  "then_do r f = (case r of Inl e \<Rightarrow> Inl e | Inr a \<Rightarrow> f a)"

subsection \<open>Tensor operations used by the driver\<close>

text \<open>\<^verbatim>\<open>torch.zeros([h, n, c])\<close>.\<close>

definition zeros3 :: "nat \<Rightarrow> nat \<Rightarrow> nat \<Rightarrow> real list list list" where
  "zeros3 h n c = replicate h (replicate n (replicate c 0))"

text \<open>\<^verbatim>\<open>F.softmax(outputs, dim = 1)\<close>, one row of it.\<close>

definition softmax :: "real list \<Rightarrow> real list" where
  "softmax xs = map (\<lambda>x. exp x / sum_list (map exp xs)) xs"

text \<open>
  \<^verbatim>\<open>output_record[slot, indices] = rows\<close>: row \<open>j\<close> of \<open>rows\<close> is stored at example
  \<open>indices ! j\<close> of the slot.
\<close>

definition write_rows :: "nat list \<Rightarrow> real list list \<Rightarrow> real list list \<Rightarrow> real list list" where
  "write_rows indices rows slot = foldl (\<lambda>m (i, r). m[i := r]) slot (zip indices rows)"

text \<open>
  \<^verbatim>\<open>t.mean(0)\<close> of a tensor of shape K x N x C: the K matrices are added entry by
  entry and the sum is divided by K.
\<close>

definition matrix_add :: "real list list \<Rightarrow> real list list \<Rightarrow> real list list" where
  "matrix_add a b = map2 (map2 (+)) a b"

definition mean0 :: "real list list list \<Rightarrow> real list list" where
  "mean0 ts = (case ts of [] \<Rightarrow> []
     | t # rest \<Rightarrow> map (map (\<lambda>x. x / real (length ts))) (foldl matrix_add t rest))"

text \<open>
  \<^verbatim>\<open>np.argsort(v)\<close>, called with the default kind: it returns the indices of \<open>v\<close> in
  ascending order of value, and promises nothing about the order of indices whose values
  are equal (the default sort is not stable). The driver is therefore modelled for any
  sort \<open>srt\<close>, and what a theorem needs of it is said by \<open>ascending_permutation\<close>:
  the result holds every index once, in ascending order of value.
\<close>

definition ascending_permutation :: "real list \<Rightarrow> nat list \<Rightarrow> bool" where
  "ascending_permutation v a \<longleftrightarrow>
     distinct a \<and> set a = {..<length v} \<and> sorted (map (\<lambda>i. v ! i) a)"

text \<open>
  Two sorts of that kind: insertion sort over the indices in ascending order, which is
  stable, and insertion sort over the indices in descending order, which returns equal
  values in descending order of index.
\<close>

definition argsort_stable :: "real list \<Rightarrow> nat list" where
  "argsort_stable v = sort_key (\<lambda>i. v ! i) [0..<length v]"

definition argsort_unstable :: "real list \<Rightarrow> nat list" where
  "argsort_unstable v = sort_key (\<lambda>i. v ! i) (rev [0..<length v])"

text \<open>
  The Python slice \<^verbatim>\<open>xs[-k:]\<close>: the last \<open>k\<close> elements, all of \<open>xs\<close> when it has
  fewer, and (since \<^verbatim>\<open>-0\<close> is \<^verbatim>\<open>0\<close>) all of \<open>xs\<close> when \<open>k = 0\<close>.
\<close>

definition last_k :: "nat \<Rightarrow> 'a list \<Rightarrow> 'a list" where
  "last_k k xs = (if k = 0 then xs else drop (length xs - k) xs)"

text \<open>\<^verbatim>\<open>np.argsort(val_record)[-k:]\<close>; the driver has \<open>k = 10\<close>.\<close>

definition topK :: "(real list \<Rightarrow> nat list) \<Rightarrow> nat \<Rightarrow> real list \<Rightarrow> nat list" where
  "topK srt k v = last_k k (srt v)"

subsection \<open>The data loader\<close>

text \<open>
  \<^verbatim>\<open>DataLoader(trainset, batch_size, shuffle = True, drop_last = True)\<close>: the sampler
  draws an order of the example indices, the loader cuts it into batches of
  \<open>batch_size\<close> indices and drops a last batch that is not full.
\<close>

function loader_batches :: "nat \<Rightarrow> nat list \<Rightarrow> nat list list" where
  "loader_batches bs xs =
     (if bs = 0 \<or> length xs < bs then []
      else take bs xs # loader_batches bs (drop bs xs))"
  by pat_completeness auto
termination
  by (relation "measure (\<lambda>(bs, xs). length xs)") auto

definition batch_size :: nat where
  "batch_size = 128"

definition num_class :: nat where
  "num_class = 10"

definition thd_increment :: real where
  "thd_increment = 1 / 10"

subsection \<open>The training set\<close>

text \<open>
  Modelled from the spec: the class \<^verbatim>\<open>Animal10\<close> (module \<^verbatim>\<open>animal_dataset\<close>) is not
  among the sources. The specification gives the data set one label array, owned by the
  data set, mutable and addressable by index, which the driver overwrites with the
  engine's output, and an accessor for the labels as they were before any correction.
  The driver reads the attribute \<^verbatim>\<open>targets\<close> and calls
  \<^verbatim>\<open>update_corrupted_label\<close>; \<open>targets\<close> is the label array and
  \<open>update_corrupted_label\<close> the overwrite.
\<close>

record Animal10 =
  targets :: "int list"
  original_targets :: "int list"

definition load_Animal10 :: "int list \<Rightarrow> Animal10" where
  "load_Animal10 labels = \<lparr>targets = labels, original_targets = labels\<rparr>"

definition update_corrupted_label :: "Animal10 \<Rightarrow> int list \<Rightarrow> Animal10" where
  "update_corrupted_label d noise_label = d\<lparr>targets := noise_label\<rparr>"

subsection \<open>The correction engine\<close>

text \<open>
  Modelled from the spec: the function \<^verbatim>\<open>lrt_correction\<close> (module \<^verbatim>\<open>utils\<close>) is not
  among the sources. Per example, with \<open>assigned\<close> the label it is given:
  \<open>best_other\<close> is the class other than \<open>assigned\<close> of highest averaged probability
  (the first one, among equals), the margin is the probability of \<open>best_other\<close> minus
  that of \<open>assigned\<close>, and the example is relabelled to \<open>best_other\<close> when the margin
  is greater than the threshold. The new threshold is
  \<open>min (current_thd + thd_increment) 1\<close>. A label outside the row, a row with no
  other class and arrays of different lengths are reported, not repaired.
\<close>

fun argmax_from :: "real list \<Rightarrow> nat \<Rightarrow> nat list \<Rightarrow> nat" where
  "argmax_from row b [] = b"
| "argmax_from row b (c # cs) = argmax_from row (if row ! b < row ! c then c else b) cs"

definition best_other :: "real list \<Rightarrow> nat \<Rightarrow> nat option" where
  "best_other row assigned =
     (case filter (\<lambda>c. c \<noteq> assigned) [0..<length row] of
        [] \<Rightarrow> None
      | c # cs \<Rightarrow> Some (argmax_from row c cs))"

definition relabel :: "real \<Rightarrow> int \<Rightarrow> real list \<Rightarrow> error + int" where
  "relabel thd l row =
     (if l < 0 \<or> int (length row) \<le> l then Inl IndexError
      else case best_other row (nat l) of
             None \<Rightarrow> Inl ValueError
           | Some b \<Rightarrow> Inr (if row ! b - row ! nat l > thd then int b else l))"

fun relabel_all :: "real \<Rightarrow> int list \<Rightarrow> real list list \<Rightarrow> error + int list" where
  "relabel_all thd [] [] = Inr []"
| "relabel_all thd (l # ls) (row # rows) =
     then_do (relabel thd l row) (\<lambda>l'.
     then_do (relabel_all thd ls rows) (\<lambda>ls'. Inr (l' # ls')))"
| "relabel_all thd [] (row # rows) = Inl ValueError"
| "relabel_all thd (l # ls) [] = Inl ValueError"

definition lrt_correction ::
  "int list \<Rightarrow> real list list \<Rightarrow> real \<Rightarrow> real \<Rightarrow> error + (int list \<times> real)" where
  "lrt_correction original_labels avg_probs current_threshold threshold_increment =
     then_do (relabel_all current_threshold original_labels avg_probs) (\<lambda>revised_labels.
       Inr (revised_labels, min (current_threshold + threshold_increment) 1))"

subsection \<open>The driver\<close>

text \<open>
  What one epoch receives from outside: the order the sampler drew, the row of scores
  the network gave each example when its batch was processed, and the counts of the
  validation pass.
\<close>

record epoch_in =
  order :: "nat list"
  outputs :: "nat \<Rightarrow> real list"
  val_correct :: nat
  val_total :: nat

record driver_state =
  trainset :: Animal10
  output_record :: "real list list list"
  val_record :: "real list"
  current_thd :: real
  best_acc :: real
  best_epoch :: nat

type_synonym outcome = "(error \<times> driver_state) + driver_state"

text \<open>Lines 41, 79, 81, 83, 84: the state before the first epoch.\<close>

definition init_state :: "Animal10 \<Rightarrow> driver_state" where
  "init_state d =
     \<lparr>trainset = d,
      output_record = zeros3 30 (length (targets d)) num_class,
      val_record = replicate 30 0,
      current_thd = 3 / 10,
      best_acc = 0,
      best_epoch = 0\<rparr>"

text \<open>
  Lines 94 to 108, one batch: a batch of one image is skipped; otherwise the batch's
  softmax rows are written into slot \<open>epoch mod 30\<close> at the batch's indices and the
  batch is counted in \<^verbatim>\<open>train_total\<close>.
\<close>

definition train_batch ::
  "nat \<Rightarrow> (nat \<Rightarrow> real list) \<Rightarrow> real list list list \<times> nat \<Rightarrow> nat list \<Rightarrow> real list list list \<times> nat" where
  "train_batch epoch out acc indices =
     (if length indices = 1 then acc
      else (let slot = epoch mod 30; record = fst acc in
              (record[slot := write_rows indices (map (\<lambda>i. softmax (out i)) indices) (record ! slot)],
               snd acc + length indices)))"

text \<open>Lines 89 to 110: the training pass; line 110 divides by \<^verbatim>\<open>train_total\<close>.\<close>

definition train_pass :: "nat \<Rightarrow> epoch_in \<Rightarrow> driver_state \<Rightarrow> outcome" where
  "train_pass epoch inp st =
     (let acc = foldl (train_batch epoch (outputs inp)) (output_record st, 0)
                  (loader_batches batch_size (order inp));
          st' = st\<lparr>output_record := fst acc\<rparr>
      in if snd acc = 0 then Inl (ZeroDivisionError, st') else Inr st')"

text \<open>Lines 113 to 130: the validation pass, the ledger and the best epoch so far.\<close>

definition val_acc :: "epoch_in \<Rightarrow> real" where
  "val_acc inp = real (val_correct inp) / real (val_total inp) * 100"

definition validate :: "nat \<Rightarrow> epoch_in \<Rightarrow> driver_state \<Rightarrow> outcome" where
  "validate epoch inp st =
     (if val_total inp = 0 then Inl (ZeroDivisionError, st)
      else (let st' = st\<lparr>val_record := (val_record st)[epoch mod 30 := val_acc inp]\<rparr>
            in Inr (if val_acc inp > best_acc st'
                    then st'\<lparr>best_acc := val_acc inp, best_epoch := epoch\<rparr> else st')))"

text \<open>Line 132.\<close>

definition ind :: "(real list \<Rightarrow> nat list) \<Rightarrow> driver_state \<Rightarrow> nat list" where
  "ind srt st = topK srt 10 (val_record st)"

text \<open>
  Lines 139 and 140: the arguments of the call of \<^verbatim>\<open>lrt_correction\<close>. The first is
  \<^verbatim>\<open>np.array(trainset.targets).copy()\<close>, a fresh array with the labels the data set
  holds at this moment.
\<close>

definition output_selected :: "(real list \<Rightarrow> nat list) \<Rightarrow> driver_state \<Rightarrow> real list list" where
  "output_selected srt st = mean0 (map (\<lambda>s. output_record st ! s) (ind srt st))"

definition passed_labels :: "driver_state \<Rightarrow> int list" where
  "passed_labels st = targets (trainset st)"

text \<open>Lines 138 to 141.\<close>

definition correct :: "(real list \<Rightarrow> nat list) \<Rightarrow> nat \<Rightarrow> driver_state \<Rightarrow> outcome" where
  "correct srt epoch st =
     (if epoch \<ge> 40 then
        (case lrt_correction (passed_labels st) (output_selected srt st) (current_thd st) thd_increment of
           Inl e \<Rightarrow> Inl (e, st)
         | Inr (y_corrected, thd) \<Rightarrow>
             Inr (st\<lparr>trainset := update_corrupted_label (trainset st) y_corrected,
                     current_thd := thd\<rparr>))
      else Inr st)"

text \<open>The epoch up to line 137, and the whole epoch.\<close>

definition pre_correct :: "nat \<Rightarrow> epoch_in \<Rightarrow> driver_state \<Rightarrow> outcome" where
  "pre_correct epoch inp st = then_do (train_pass epoch inp st) (validate epoch inp)"

definition epoch_body :: "(real list \<Rightarrow> nat list) \<Rightarrow> nat \<Rightarrow> epoch_in \<Rightarrow> driver_state \<Rightarrow> outcome" where
  "epoch_body srt epoch inp st = then_do (pre_correct epoch inp st) (correct srt epoch)"

text \<open>
  Line 87: the loop over the epochs, from epoch number \<open>epoch\<close> on; the list holds
  the inputs of the epochs still to run, so \<^verbatim>\<open>args.nepoch\<close> is its length.
\<close>

fun run_epochs :: "(real list \<Rightarrow> nat list) \<Rightarrow> nat \<Rightarrow> epoch_in list \<Rightarrow> driver_state \<Rightarrow> outcome" where
  "run_epochs srt epoch [] st = Inr st"
| "run_epochs srt epoch (inp # ins) st =
     then_do (epoch_body srt epoch inp st) (run_epochs srt (Suc epoch) ins)"

definition main :: "(real list \<Rightarrow> nat list) \<Rightarrow> int list \<Rightarrow> epoch_in list \<Rightarrow> outcome" where
  "main srt labels ins = run_epochs srt 0 ins (init_state (load_Animal10 labels))"

subsection \<open>What an epoch records\<close>

text \<open>
  The examples the training pass of an epoch is given, in the order it is given them:
  the batches the loader delivers, one after the other. \<open>recorded_slot\<close> is a slot
  of \<^verbatim>\<open>output_record\<close> after these examples' softmax rows are written into it.
\<close>

definition delivered :: "epoch_in \<Rightarrow> nat list" where
  "delivered inp = concat (loader_batches batch_size (order inp))"

definition recorded_slot :: "epoch_in \<Rightarrow> real list list \<Rightarrow> real list list" where
  "recorded_slot inp slot =
     write_rows (delivered inp) (map (\<lambda>i. softmax (outputs inp i)) (delivered inp)) slot"

text \<open>
  The shapes the driver keeps: 30 slots of \<open>n\<close> rows of \<open>num_class\<close> entries, and
  a ledger of 30 entries.
\<close>

definition shaped :: "nat \<Rightarrow> driver_state \<Rightarrow> bool" where
  "shaped n st \<longleftrightarrow>
     length (output_record st) = 30 \<and> length (val_record st) = 30 \<and>
     (\<forall>slot\<in>set (output_record st).
        length slot = n \<and> (\<forall>row\<in>set slot. length row = num_class))"

text \<open>
  What the loader and the network guarantee of an epoch's input over \<open>n\<close> examples:
  the sampler's order is a permutation of the example indices, and the network gives
  every example a row of \<open>num_class\<close> scores.
\<close>

definition epoch_ok :: "nat \<Rightarrow> epoch_in \<Rightarrow> bool" where
  "epoch_ok n inp \<longleftrightarrow>
     distinct (order inp) \<and> set (order inp) = {..<n} \<and>
     (\<forall>i\<in>set (order inp). length (outputs inp i) = num_class)"

subsection \<open>Observing a run\<close>

text \<open>
  The state at line 138 of epoch \<open>E\<close> of a run of \<^verbatim>\<open>main\<close>: the epochs before
  \<open>E\<close> are over, and epoch \<open>E\<close> has trained, validated and selected.
\<close>

definition at_correction :: "(real list \<Rightarrow> nat list) \<Rightarrow> nat \<Rightarrow> int list \<Rightarrow> epoch_in list \<Rightarrow> outcome" where
  "at_correction srt E labels ins = then_do (main srt labels (take E ins)) (pre_correct E (ins ! E))"

text \<open>The state a run ends in, whether it returned or raised, and what it holds.\<close>

definition state_of :: "outcome \<Rightarrow> driver_state" where
  "state_of r = (case r of Inl f \<Rightarrow> snd f | Inr st \<Rightarrow> st)"

definition raised :: "outcome \<Rightarrow> error option" where
  "raised r = (case r of Inl f \<Rightarrow> Some (fst f) | Inr st \<Rightarrow> None)"

definition buffer_row :: "outcome \<Rightarrow> nat \<Rightarrow> nat \<Rightarrow> real list option" where
  "buffer_row r s i = (case r of Inl f \<Rightarrow> None | Inr st \<Rightarrow> Some (output_record st ! s ! i))"

definition ledger_of :: "outcome \<Rightarrow> real list option" where
  "ledger_of r = (case r of Inl f \<Rightarrow> None | Inr st \<Rightarrow> Some (val_record st))"



definition threshold_of :: "outcome \<Rightarrow> real option" where
  "threshold_of r = (case r of Inl f \<Rightarrow> None | Inr st \<Rightarrow> Some (current_thd st))"

subsection \<open>Concrete epochs\<close>

text \<open>
  An epoch in which the sampler draws the order \<open>ord\<close>, the network gives every
  example the scores \<open>row\<close>, and half of the validation images are classified right.
  The softmax of \<open>row_a\<close> is uniform; that of \<open>row_b\<close> gives class 1 the
  probability 9/10 and every other class 1/90.
\<close>

definition fixed_in :: "nat list \<Rightarrow> real list \<Rightarrow> epoch_in" where
  "fixed_in ord row = \<lparr>order = ord, outputs = (\<lambda>i. row), val_correct = 1, val_total = 2\<rparr>"

definition row_a :: "real list" where
  "row_a = replicate 10 0"

definition row_b :: "real list" where
  "row_b = [0, ln 81, 0, 0, 0, 0, 0, 0, 0, 0]"

section \<open>The correction engine, per example\<close>


lemma argmax_from_mem: "argmax_from row b cs \<in> set (b # cs)"
  by (induction cs arbitrary: b) auto

lemma argmax_from_ge_start: "row ! b \<le> row ! argmax_from row b cs"
proof (induction cs arbitrary: b)
  case Nil
  then show ?case by simp
next
  case (Cons c cs)
  show ?case
  proof (cases "row ! b < row ! c")
    case True
    have "row ! c \<le> row ! argmax_from row c cs" by (rule Cons.IH)
    with True show ?thesis by simp
  next
    case False
    then show ?thesis using Cons.IH [of b] by simp
  qed
qed

lemma argmax_from_max: "c \<in> set (b # cs) \<Longrightarrow> row ! c \<le> row ! argmax_from row b cs"
proof (induction cs arbitrary: b)
  case Nil
  then show ?case by simp
next
  case (Cons d ds)
  let ?b' = "if row ! b < row ! d then d else b"
  have step: "argmax_from row b (d # ds) = argmax_from row ?b' ds" by simp
  have start: "row ! ?b' \<le> row ! argmax_from row ?b' ds" by (rule argmax_from_ge_start)
  from Cons.prems have "c = b \<or> c = d \<or> c \<in> set ds" by auto
  then show ?case
  proof (elim disjE)
    assume "c = b"
    then have "row ! c \<le> row ! ?b'" by simp
    with start step show ?thesis by simp
  next
    assume "c = d"
    then have "row ! c \<le> row ! ?b'" by simp
    with start step show ?thesis by simp
  next
    assume "c \<in> set ds"
    then have "c \<in> set (?b' # ds)" by simp
    from Cons.IH [OF this] step show ?thesis by simp
  qed
qed

lemma best_other_Some:
  assumes "best_other row a = Some b"
  shows "b \<noteq> a \<and> b < length row \<and> (\<forall>c<length row. c \<noteq> a \<longrightarrow> row ! c \<le> row ! b)"
proof -
  obtain c cs where f: "filter (\<lambda>c. c \<noteq> a) [0..<length row] = c # cs"
    and b: "b = argmax_from row c cs"
    using assms by (auto simp: best_other_def split: list.splits)
  have mem: "b \<in> set (c # cs)" unfolding b by (rule argmax_from_mem)
  have set_eq: "set (c # cs) = {x. x < length row \<and> x \<noteq> a}"
    using f [symmetric] by auto
  from mem set_eq have "b \<noteq> a" "b < length row" by auto
  moreover have "\<forall>x<length row. x \<noteq> a \<longrightarrow> row ! x \<le> row ! b"
  proof (intro allI impI)
    fix x assume "x < length row" "x \<noteq> a"
    then have "x \<in> set (c # cs)" using set_eq by simp
    then show "row ! x \<le> row ! b" unfolding b by (rule argmax_from_max)
  qed
  ultimately show ?thesis by simp
qed

lemma best_other_exists:
  assumes "2 \<le> length row"
  shows "\<exists>b. best_other row a = Some b"
proof -
  have "(if a = 0 then 1 else 0) \<in> set (filter (\<lambda>c. c \<noteq> a) [0..<length row])"
    using assms by auto
  then have "filter (\<lambda>c. c \<noteq> a) [0..<length row] \<noteq> []" by force
  then show ?thesis by (auto simp: best_other_def split: list.splits)
qed

lemma relabel_all_Inr:
  "relabel_all thd ls rows = Inr rs \<Longrightarrow>
     length rs = length ls \<and> length rows = length ls \<and>
     (\<forall>i<length ls. relabel thd (ls ! i) (rows ! i) = Inr (rs ! i))"
proof (induction thd ls rows arbitrary: rs rule: relabel_all.induct)
  case (1 thd)
  then show ?case by simp
next
  case (2 thd l ls row rows)
  from "2.prems" obtain l' ls' where
    l': "relabel thd l row = Inr l'" and ls': "relabel_all thd ls rows = Inr ls'" and rs: "rs = l' # ls'"
    by (auto simp: then_do_def split: sum.splits)
  from "2.IH" [OF ls'] have ih: "length ls' = length ls" "length rows = length ls"
    "\<forall>i<length ls. relabel thd (ls ! i) (rows ! i) = Inr (ls' ! i)" by auto
  show ?case using ih l' rs by (auto simp: nth_Cons split: nat.splits)
next
  case (3 thd row rows)
  then show ?case by simp
next
  case (4 thd l ls)
  then show ?case by simp
qed

lemma relabel_all_total:
  "length ls = length rows \<Longrightarrow> \<forall>i<length ls. \<exists>r. relabel thd (ls ! i) (rows ! i) = Inr r \<Longrightarrow>
     \<exists>rs. relabel_all thd ls rows = Inr rs"
proof (induction thd ls rows rule: relabel_all.induct)
  case (1 thd)
  then show ?case by simp
next
  case (2 thd l ls row rows)
  from "2.prems"(2) obtain r where r: "relabel thd l row = Inr r" by fastforce
  have "\<forall>i<length ls. \<exists>r. relabel thd (ls ! i) (rows ! i) = Inr r"
    using "2.prems"(2) by fastforce
  with "2.IH" "2.prems"(1) obtain rs where "relabel_all thd ls rows = Inr rs" by auto
  with r show ?case by (simp add: then_do_def)
next
  case (3 thd row rows)
  then show ?case by simp
next
  case (4 thd l ls)
  then show ?case by simp
qed


lemma relabel_wellformed:
  assumes "0 \<le> l" "l < int (length row)" "2 \<le> length row"
  shows "\<exists>b. best_other row (nat l) = Some b \<and>
             relabel thd l row = Inr (if thd < row ! b - row ! nat l then int b else l)"
proof -
  from best_other_exists [OF assms(3)] obtain b where "best_other row (nat l) = Some b" ..
  then show ?thesis using assms by (simp add: relabel_def)
qed

text \<open>
  Claim C5. For inputs of matching length whose labels lie inside their rows and whose
  rows have at least two classes, the engine returns, and for every example \<open>i\<close>
  on its own: with \<open>b\<close> the class other than the given label of highest averaged
  probability, the revised label is \<open>b\<close> when the probability of \<open>b\<close> exceeds that of
  the given label by more than the threshold, and the given label otherwise; no third
  class is ever written.
\<close>

theorem lrt_correction_per_example:
  assumes "length original_labels = length avg_probs"
    and "\<forall>i<length original_labels.
           0 \<le> original_labels ! i \<and> original_labels ! i < int (length (avg_probs ! i)) \<and>
           2 \<le> length (avg_probs ! i)"
  shows "\<exists>revised_labels.
           lrt_correction original_labels avg_probs thd inc
             = Inr (revised_labels, min (thd + inc) 1) \<and>
           length revised_labels = length original_labels \<and>
           (\<forall>i<length original_labels. \<exists>b.
              best_other (avg_probs ! i) (nat (original_labels ! i)) = Some b \<and>
              b < length (avg_probs ! i) \<and> int b \<noteq> original_labels ! i \<and>
              (\<forall>c<length (avg_probs ! i). int c \<noteq> original_labels ! i \<longrightarrow>
                   avg_probs ! i ! c \<le> avg_probs ! i ! b) \<and>
              revised_labels ! i =
                (if thd < avg_probs ! i ! b - avg_probs ! i ! nat (original_labels ! i)
                 then int b else original_labels ! i))"
proof -
  have each: "\<forall>i<length original_labels.
      \<exists>r. relabel thd (original_labels ! i) (avg_probs ! i) = Inr r"
  proof (intro allI impI)
    fix i assume "i < length original_labels"
    with assms(2) relabel_wellformed [of "original_labels ! i" "avg_probs ! i" thd]
    show "\<exists>r. relabel thd (original_labels ! i) (avg_probs ! i) = Inr r" by blast
  qed
  from relabel_all_total [OF assms(1) each] obtain rs
    where rs: "relabel_all thd original_labels avg_probs = Inr rs" ..
  from relabel_all_Inr [OF rs] have len: "length rs = length original_labels"
    and pt: "\<forall>i<length original_labels.
               relabel thd (original_labels ! i) (avg_probs ! i) = Inr (rs ! i)" by auto
  have res: "lrt_correction original_labels avg_probs thd inc = Inr (rs, min (thd + inc) 1)"
    using rs by (simp add: lrt_correction_def then_do_def)
  have "\<forall>i<length original_labels. \<exists>b.
              best_other (avg_probs ! i) (nat (original_labels ! i)) = Some b \<and>
              b < length (avg_probs ! i) \<and> int b \<noteq> original_labels ! i \<and>
              (\<forall>c<length (avg_probs ! i). int c \<noteq> original_labels ! i \<longrightarrow>
                   avg_probs ! i ! c \<le> avg_probs ! i ! b) \<and>
              rs ! i =
                (if thd < avg_probs ! i ! b - avg_probs ! i ! nat (original_labels ! i)
                 then int b else original_labels ! i)"
  proof (intro allI impI)
    fix i assume i: "i < length original_labels"
    let ?l = "original_labels ! i" and ?row = "avg_probs ! i"
    from assms(2) i have wf: "0 \<le> ?l" "?l < int (length ?row)" "2 \<le> length ?row" by auto
    from relabel_wellformed [OF wf, of thd] obtain b where
      b: "best_other ?row (nat ?l) = Some b" and
      r: "relabel thd ?l ?row = Inr (if thd < ?row ! b - ?row ! nat ?l then int b else ?l)"
      by blast
    from best_other_Some [OF b] have p: "b \<noteq> nat ?l" "b < length ?row"
      "\<forall>c<length ?row. c \<noteq> nat ?l \<longrightarrow> ?row ! c \<le> ?row ! b" by auto
    have ne: "int b \<noteq> ?l" using p(1) wf(1) by auto
    have mx: "\<forall>c<length ?row. int c \<noteq> ?l \<longrightarrow> ?row ! c \<le> ?row ! b"
      using p(3) wf(1) by auto
    have "rs ! i = (if thd < ?row ! b - ?row ! nat ?l then int b else ?l)"
      using pt i r by simp
    with b p(2) ne mx
    show "\<exists>b. best_other ?row (nat ?l) = Some b \<and> b < length ?row \<and> int b \<noteq> ?l \<and>
              (\<forall>c<length ?row. int c \<noteq> ?l \<longrightarrow> ?row ! c \<le> ?row ! b) \<and>
              rs ! i = (if thd < ?row ! b - ?row ! nat ?l then int b else ?l)"
      by blast
  qed
  with res len show ?thesis by blast
qed

lemma scenario_relabel:
  "lrt_correction [0] [[1/5, 3/4, 1/20]] (3/10) (1/10) = Inr ([1], 2/5)"
  by (simp add: lrt_correction_def then_do_def relabel_def best_other_def upt_rec)

lemma scenario_keep:
  "lrt_correction [0] [[1/5, 3/4, 1/20]] (3/5) (1/10) = Inr ([0], 7/10)"
  by (simp add: lrt_correction_def then_do_def relabel_def best_other_def upt_rec)

theorem lrt_correction_per_example_witness:
  "length [0::int] = length [[1/5, 3/4, 1/20::real]] \<and>
   lrt_correction [0] [[1/5, 3/4, 1/20]] (3/10) (1/10) = Inr ([1], 2/5) \<and>
   best_other [1/5, 3/4, 1/20] (nat 0) = Some 1"
  using lrt_correction_per_example [of "[0]" "[[1/5, 3/4, 1/20]]" "3/10" "1/10"]
  by (simp add: lrt_correction_def then_do_def relabel_def best_other_def upt_rec)


section \<open>The epoch selector\<close>

lemma ascending_permutation_length: "ascending_permutation v a \<Longrightarrow> length a = length v"
  using distinct_card [of a] by (simp add: ascending_permutation_def)

lemma argsort_stable_ascending: "ascending_permutation v (argsort_stable v)"
  by (auto simp: ascending_permutation_def argsort_stable_def)

lemma argsort_unstable_ascending: "ascending_permutation v (argsort_unstable v)"
  by (auto simp: ascending_permutation_def argsort_unstable_def)

lemma topK_drop:
  "ascending_permutation v (srt v) \<Longrightarrow> 0 < k \<Longrightarrow> topK srt k v = drop (length v - k) (srt v)"
  by (simp add: topK_def last_k_def ascending_permutation_length)

lemma unique_top_set:
  fixes v :: "real list"
  assumes "finite S" "finite T" "card S = card T"
    and S: "\<forall>j<n. j \<notin> S \<longrightarrow> (\<forall>i\<in>S. v ! j < v ! i)" and "S \<subseteq> {..<n}"
    and T: "\<forall>j<n. j \<notin> T \<longrightarrow> (\<forall>i\<in>T. v ! j < v ! i)" and "T \<subseteq> {..<n}"
  shows "S = T"
proof -
  have sub: "S \<subseteq> T"
  proof (rule ccontr)
    assume "\<not> S \<subseteq> T"
    then obtain i where i: "i \<in> S" "i \<notin> T" by blast
    have "\<not> T \<subseteq> S"
    proof
      assume "T \<subseteq> S"
      with i have "T \<subset> S" by blast
      with assms(1) have "card T < card S" by (rule psubset_card_mono)
      with assms(3) show False by simp
    qed
    then obtain j where j: "j \<in> T" "j \<notin> S" by blast
    have "i < n" "j < n" using i j assms(5,7) by auto
    then have "v ! i < v ! j" "v ! j < v ! i" using S T i j by auto
    then show False by simp
  qed
  with assms(2,3) show ?thesis by (simp add: card_subset_eq)
qed

text \<open>
  Claim C2, as amended. Whatever order the sort gives equal values, for
  \<open>1 \<le> k \<le> H\<close> (the driver has \<open>k = 10\<close> and \<open>H = 30\<close>) \<open>topK k\<close> returns \<open>k\<close>
  distinct slots of the ledger in ascending order of stored value, and no slot it
  leaves out holds a larger value than a slot it returns. When the stored values are all
  distinct, the slots left out are strictly smaller, and the set returned is the only
  set of \<open>k\<close> slots with that property: it depends on the ledger's contents alone, not
  on the order they were written in. Which of several slots of equal value are returned
  is not said: it is the sort's choice.
\<close>

theorem topK_selects_highest:
  assumes "ascending_permutation v (srt v)" and "0 < k" and "k \<le> length v"
  shows "length (topK srt k v) = k \<and> distinct (topK srt k v) \<and>
         set (topK srt k v) \<subseteq> {..<length v} \<and>
         sorted (map (\<lambda>i. v ! i) (topK srt k v)) \<and>
         (\<forall>j<length v. j \<notin> set (topK srt k v) \<longrightarrow>
            (\<forall>i\<in>set (topK srt k v). v ! j \<le> v ! i)) \<and>
         (distinct v \<longrightarrow>
            (\<forall>j<length v. j \<notin> set (topK srt k v) \<longrightarrow>
               (\<forall>i\<in>set (topK srt k v). v ! j < v ! i)) \<and>
            (\<forall>S. S \<subseteq> {..<length v} \<and> card S = k \<and>
                 (\<forall>j<length v. j \<notin> S \<longrightarrow> (\<forall>i\<in>S. v ! j < v ! i)) \<longrightarrow>
                 S = set (topK srt k v)))"
proof -
  let ?a = "srt v" and ?n = "length v"
  let ?r = "topK srt k v"
  have la: "length ?a = ?n" using assms(1) by (rule ascending_permutation_length)
  have da: "distinct ?a" and sa: "set ?a = {..<?n}" and oa: "sorted (map (\<lambda>i. v ! i) ?a)"
    using assms(1) by (simp_all add: ascending_permutation_def)
  have r: "?r = drop (?n - k) ?a" using assms(1,2) by (rule topK_drop)
  have split: "?a = take (?n - k) ?a @ ?r" by (simp add: r)
  have len: "length ?r = k" using assms(3) by (simp add: r la)
  have dist: "distinct ?r" using da by (simp add: r)
  have sub: "set ?r \<subseteq> {..<?n}" using set_drop_subset [of "?n - k" ?a] sa by (simp add: r)
  have "sorted (map (\<lambda>i. v ! i) (take (?n - k) ?a) @ map (\<lambda>i. v ! i) ?r)"
    using oa by (subst (asm) split) simp
  then have srt: "sorted (map (\<lambda>i. v ! i) ?r)"
    and cross: "\<forall>j\<in>set (take (?n - k) ?a). \<forall>i\<in>set ?r. v ! j \<le> v ! i"
    by (auto simp: sorted_append)
  have excl: "\<forall>j<?n. j \<notin> set ?r \<longrightarrow> (\<forall>i\<in>set ?r. v ! j \<le> v ! i)"
  proof (intro allI impI)
    fix j assume j: "j < ?n" "j \<notin> set ?r"
    have "j \<in> set ?a" using j(1) sa by simp
    then have "j \<in> set (take (?n - k) ?a) \<union> set ?r" by (subst (asm) split) simp
    with j(2) have "j \<in> set (take (?n - k) ?a)" by simp
    with cross show "\<forall>i\<in>set ?r. v ! j \<le> v ! i" by blast
  qed
  have strict: "\<forall>j<?n. j \<notin> set ?r \<longrightarrow> (\<forall>i\<in>set ?r. v ! j < v ! i)" if dv: "distinct v"
  proof (intro allI impI ballI)
    fix j i assume j: "j < ?n" "j \<notin> set ?r" and i: "i \<in> set ?r"
    from excl j i have le: "v ! j \<le> v ! i" by blast
    have "i < ?n" using sub i by auto
    moreover have "i \<noteq> j" using i j(2) by auto
    ultimately have "v ! j \<noteq> v ! i" using dv j(1) by (simp add: nth_eq_iff_index_eq)
    with le show "v ! j < v ! i" by simp
  qed
  have uniq: "\<forall>S. S \<subseteq> {..<?n} \<and> card S = k \<and>
       (\<forall>j<?n. j \<notin> S \<longrightarrow> (\<forall>i\<in>S. v ! j < v ! i)) \<longrightarrow> S = set ?r" if dv: "distinct v"
  proof (intro allI impI)
    fix S assume S: "S \<subseteq> {..<?n} \<and> card S = k \<and> (\<forall>j<?n. j \<notin> S \<longrightarrow> (\<forall>i\<in>S. v ! j < v ! i))"
    then have fin: "finite S" using finite_subset by blast
    have card: "card S = card (set ?r)" using S dist len by (simp add: distinct_card)
    show "S = set ?r"
      by (rule unique_top_set [OF fin _ card, of ?n v]) (use S sub strict [OF dv] in auto)
  qed
  from len dist sub srt excl strict uniq show ?thesis by blast
qed

text \<open>
  The specification's scenario: the ledger \<open>[10, 50, 30]\<close> and \<open>k = 2\<close> select the
  slots 2 and 1, whichever of the two sorts is used.
\<close>

lemma scenario_topK:
  "topK argsort_stable 2 [10, 50, 30] = [2, 1]" "topK argsort_unstable 2 [10, 50, 30] = [2, 1]"
  by (simp_all add: topK_def last_k_def argsort_stable_def argsort_unstable_def upt_rec)

theorem topK_selects_highest_witness:
  "ascending_permutation [10, 50, 30] (argsort_unstable [10, 50, 30]) \<and>
   (0::nat) < 2 \<and> 2 \<le> length [10, 50, 30 :: real] \<and>
   topK argsort_unstable 2 [10, 50, 30] = [2, 1] \<and>
   length (topK argsort_unstable 2 [10, 50, 30]) = 2 \<and> distinct [10, 50, 30 :: real]"
  using topK_selects_highest [of "[10, 50, 30]" argsort_unstable 2]
    argsort_unstable_ascending [of "[10, 50, 30]"]
  by (simp add: topK_def last_k_def argsort_unstable_def upt_rec)

text \<open>
  Claim C2, as it was stated, fails. On the ledger \<open>[50, 50, 0, 0]\<close> both sorts are
  ascending permutations; for \<open>k = 1\<close> the stable one selects slot 1 and the other
  slot 0, so ties are not broken by a stable sort's rule. And \<open>k\<close> does not range over
  every number: for \<open>k = 0\<close> the slice is the whole array, and for \<open>k = 5\<close> it has only
  the four slots there are.
\<close>

theorem topK_ties_not_stable:
  "ascending_permutation [50, 50, 0, 0] (argsort_stable [50, 50, 0, 0]) \<and>
   ascending_permutation [50, 50, 0, 0] (argsort_unstable [50, 50, 0, 0]) \<and>
   topK argsort_stable 1 [50, 50, 0, 0] = [1] \<and>
   topK argsort_unstable 1 [50, 50, 0, 0] = [0] \<and>
   length (topK argsort_unstable 0 [50, 50, 0, 0]) = 4 \<and>
   length (topK argsort_unstable 5 [50, 50, 0, 0]) = 4"
  using argsort_stable_ascending [of "[50, 50, 0, 0]"]
    argsort_unstable_ascending [of "[50, 50, 0, 0]"]
  by (simp add: topK_def last_k_def argsort_stable_def argsort_unstable_def upt_rec)

section \<open>The steps of an epoch\<close>


declare loader_batches.simps [simp del]

lemma then_do_Inr [simp]: "then_do (Inr a) f = f a"
  by (simp add: then_do_def)

lemma then_do_Inl [simp]: "then_do (Inl e) f = Inl e"
  by (simp add: then_do_def)

lemma then_do_eq_Inr: "then_do r f = Inr b \<longleftrightarrow> (\<exists>a. r = Inr a \<and> f a = Inr b)"
  by (cases r) simp_all

subsection \<open>Writing rows\<close>

lemma write_rows_Nil [simp]: "write_rows [] rows m = m"
  by (simp add: write_rows_def)

lemma write_rows_Cons [simp]:
  "write_rows (i # is) (r # rs) m = write_rows is rs (m[i := r])"
  by (simp add: write_rows_def)

lemma length_fold_update:
  "length (foldl (\<lambda>m (i, r). m[i := r]) m ps) = length m"
  by (induction ps arbitrary: m) auto

lemma fold_update_other:
  "i \<notin> fst ` set ps \<Longrightarrow> foldl (\<lambda>m (i, r). m[i := r]) m ps ! i = m ! i"
  by (induction ps arbitrary: m) auto

lemma fold_update_written:
  "distinct (map fst ps) \<Longrightarrow> (i, r) \<in> set ps \<Longrightarrow> i < length m \<Longrightarrow>
     foldl (\<lambda>m (i, r). m[i := r]) m ps ! i = r"
proof (induction ps arbitrary: m)
  case Nil
  then show ?case by simp
next
  case (Cons p ps)
  show ?case
  proof (cases "p = (i, r)")
    case True
    then have "i \<notin> fst ` set ps" using Cons.prems(1) by auto
    then have "foldl (\<lambda>m (i, r). m[i := r]) (m[i := r]) ps ! i = (m[i := r]) ! i"
      by (rule fold_update_other)
    with True Cons.prems(3) show ?thesis by simp
  next
    case False
    with Cons.prems have "(i, r) \<in> set ps" "distinct (map fst ps)" by auto
    from Cons.IH [OF this(2) this(1), of "case p of (j, q) \<Rightarrow> m[j := q]"] Cons.prems(3)
    show ?thesis by (cases p) simp
  qed
qed

lemma length_write_rows [simp]: "length (write_rows is rs m) = length m"
  by (simp add: write_rows_def length_fold_update)

lemma write_rows_other: "i \<notin> set is \<Longrightarrow> write_rows is rs m ! i = m ! i"
  unfolding write_rows_def by (rule fold_update_other) (auto dest: set_zip_leftD)

lemma write_rows_written:
  assumes "distinct is" "i \<in> set is" "i < length m"
  shows "write_rows is (map f is) m ! i = f i"
proof -
  have "(i, f i) \<in> set (zip is (map f is))"
    using assms(2) by (induction "is") auto
  moreover have "distinct (map fst (zip is (map f is)))" using assms(1) by simp
  ultimately show ?thesis unfolding write_rows_def using assms(3)
    by (intro fold_update_written)
qed

lemma write_rows_append:
  "length is = length rs \<Longrightarrow>
     write_rows (is @ js) (rs @ qs) m = write_rows js qs (write_rows is rs m)"
  by (simp add: write_rows_def)

lemma set_write_rows: "set (write_rows is rs m) \<subseteq> set m \<union> set rs"
proof (induction "is" arbitrary: rs m)
  case Nil
  then show ?case by simp
next
  case (Cons i "is")
  show ?case
  proof (cases rs)
    case Nil
    then show ?thesis by (simp add: write_rows_def)
  next
    case (Cons r rs')
    have "set (m[i := r]) \<subseteq> insert r (set m)" by (rule set_update_subset_insert)
    with Cons.IH [of rs' "m[i := r]"] Cons show ?thesis by auto
  qed
qed

subsection \<open>The loader\<close>

lemma loader_batches_length: "b \<in> set (loader_batches bs xs) \<Longrightarrow> length b = bs"
proof (induction bs xs rule: loader_batches.induct)
  case (1 bs xs)
  show ?case
  proof (cases "bs = 0 \<or> length xs < bs")
    case True
    with "1.prems" show ?thesis by (simp add: loader_batches.simps [of bs xs])
  next
    case False
    with "1.prems" have "b = take bs xs \<or> b \<in> set (loader_batches bs (drop bs xs))"
      by (simp add: loader_batches.simps [of bs xs])
    with False "1.IH" show ?thesis by auto
  qed
qed

lemma concat_loader_batches:
  "concat (loader_batches bs xs) = take (bs * (length xs div bs)) xs"
proof (induction bs xs rule: loader_batches.induct)
  case (1 bs xs)
  show ?case
  proof (cases "bs = 0 \<or> length xs < bs")
    case True
    then show ?thesis by (auto simp: loader_batches.simps [of bs xs])
  next
    case False
    then have bs: "0 < bs" "bs \<le> length xs" by auto
    have d: "length xs div bs = Suc ((length xs - bs) div bs)"
      using bs by (simp add: le_div_geq)
    have "concat (loader_batches bs xs) = take bs xs @ take (bs * ((length xs - bs) div bs)) (drop bs xs)"
      using False "1.IH" by (simp add: loader_batches.simps [of bs xs])
    also have "\<dots> = take (bs + bs * ((length xs - bs) div bs)) xs"
      by (simp add: take_add)
    finally show ?thesis using d by simp
  qed
qed

lemma delivered_take:
  "delivered inp = take (128 * (length (order inp) div 128)) (order inp)"
  by (simp add: delivered_def batch_size_def concat_loader_batches)

lemma delivered_Nil_iff: "delivered inp = [] \<longleftrightarrow> loader_batches batch_size (order inp) = []"
proof -
  have "\<forall>b\<in>set (loader_batches batch_size (order inp)). b \<noteq> []"
    using loader_batches_length [of "[]" batch_size "order inp"] by (auto simp: batch_size_def)
  then show ?thesis by (auto simp: delivered_def)
qed


subsection \<open>The training pass\<close>

lemma train_batch_eq:
  "length b \<noteq> 1 \<Longrightarrow>
     train_batch e out (buf, t) b =
       (buf[e mod 30 := write_rows b (map (\<lambda>i. softmax (out i)) b) (buf ! (e mod 30))],
        t + length b)"
  by (simp add: train_batch_def Let_def)

lemma train_fold:
  assumes "e mod 30 < length buf" and "\<forall>b\<in>set bs. length b \<noteq> 1"
  shows "foldl (train_batch e out) (buf, t) bs =
           (buf[e mod 30 := write_rows (concat bs) (map (\<lambda>i. softmax (out i)) (concat bs))
                                 (buf ! (e mod 30))],
            t + length (concat bs))"
  using assms
proof (induction bs arbitrary: buf t)
  case Nil
  then show ?case by simp
next
  case (Cons b bs)
  let ?f = "\<lambda>i. softmax (out i)" and ?s = "e mod 30"
  let ?r1 = "buf[?s := write_rows b (map ?f b) (buf ! ?s)]"
  have b: "length b \<noteq> 1" and bs: "\<forall>b\<in>set bs. length b \<noteq> 1" using Cons.prems(2) by auto
  have len: "?s < length ?r1" using Cons.prems(1) by simp
  have "foldl (train_batch e out) (buf, t) (b # bs)
          = foldl (train_batch e out) (?r1, t + length b) bs"
    using b by (simp add: train_batch_eq)
  also have "\<dots> = (?r1[?s := write_rows (concat bs) (map ?f (concat bs)) (?r1 ! ?s)],
                    t + length b + length (concat bs))"
    by (rule Cons.IH [OF len bs])
  also have "?r1 ! ?s = write_rows b (map ?f b) (buf ! ?s)"
    using Cons.prems(1) by simp
  also have "write_rows (concat bs) (map ?f (concat bs)) (write_rows b (map ?f b) (buf ! ?s))
               = write_rows (concat (b # bs)) (map ?f (concat (b # bs))) (buf ! ?s)"
    by (simp add: write_rows_append)
  finally show ?case by (simp add: add.assoc)
qed

lemma train_pass_eq:
  assumes "length (output_record st) = 30"
  shows "train_pass e inp st =
           (if delivered inp = []
            then Inl (ZeroDivisionError, st\<lparr>output_record := (output_record st)
                        [e mod 30 := recorded_slot inp (output_record st ! (e mod 30))]\<rparr>)
            else Inr (st\<lparr>output_record := (output_record st)
                        [e mod 30 := recorded_slot inp (output_record st ! (e mod 30))]\<rparr>))"
proof -
  have one: "\<forall>b\<in>set (loader_batches batch_size (order inp)). length b \<noteq> 1"
    using loader_batches_length [of _ batch_size "order inp"] by (auto simp: batch_size_def)
  have slot: "e mod 30 < length (output_record st)" using assms by simp
  show ?thesis
    unfolding train_pass_def train_fold [OF slot one]
    by (simp add: Let_def delivered_def recorded_slot_def)
qed

lemma validate_eq:
  "validate e inp st =
     (if val_total inp = 0 then Inl (ZeroDivisionError, st)
      else Inr (st\<lparr>val_record := (val_record st)[e mod 30 := val_acc inp],
                   best_acc := (if val_acc inp > best_acc st then val_acc inp else best_acc st),
                   best_epoch := (if val_acc inp > best_acc st then e else best_epoch st)\<rparr>))"
  by (simp add: validate_def Let_def)

lemma pre_correct_Inr:
  assumes "length (output_record st) = 30"
  shows "pre_correct e inp st = Inr st1 \<longleftrightarrow>
           delivered inp \<noteq> [] \<and> val_total inp \<noteq> 0 \<and>
           st1 = st\<lparr>output_record := (output_record st)
                       [e mod 30 := recorded_slot inp (output_record st ! (e mod 30))],
                    val_record := (val_record st)[e mod 30 := val_acc inp],
                    best_acc := (if val_acc inp > best_acc st then val_acc inp else best_acc st),
                    best_epoch := (if val_acc inp > best_acc st then e else best_epoch st)\<rparr>"
  by (auto simp: pre_correct_def train_pass_eq [OF assms] validate_eq)

lemma pre_correct_fields:
  assumes "pre_correct e inp st = Inr st1" and "length (output_record st) = 30"
  shows "output_record st1 = (output_record st)
           [e mod 30 := recorded_slot inp (output_record st ! (e mod 30))]"
    and "val_record st1 = (val_record st)[e mod 30 := val_acc inp]"
    and "trainset st1 = trainset st" and "current_thd st1 = current_thd st"
    and "delivered inp \<noteq> []" and "val_total inp \<noteq> 0"
  using assms(1) unfolding pre_correct_Inr [OF assms(2)] by simp_all

lemma correct_before_warm_up: "epoch < 40 \<Longrightarrow> correct srt epoch st = Inr st"
  by (simp add: correct_def)

lemma correct_Inr:
  "correct srt epoch st = Inr st' \<Longrightarrow>
     output_record st' = output_record st \<and> val_record st' = val_record st"
  by (auto simp: correct_def update_corrupted_label_def split: if_splits sum.splits prod.splits)

lemma epoch_body_Inr:
  "epoch_body srt e inp st = Inr st' \<longleftrightarrow>
     (\<exists>st1. pre_correct e inp st = Inr st1 \<and> correct srt e st1 = Inr st')"
  by (simp add: epoch_body_def then_do_eq_Inr)


subsection \<open>Softmax rows\<close>

lemma length_softmax [simp]: "length (softmax xs) = length xs"
  by (simp add: softmax_def)

lemma sum_exp_pos: "xs \<noteq> [] \<Longrightarrow> 0 < sum_list (map exp (xs :: real list))"
proof (induction xs)
  case Nil
  then show ?case by simp
next
  case (Cons x xs)
  have "0 \<le> sum_list (map exp xs)" by (rule sum_list_nonneg) auto
  moreover have "0 < exp x" by simp
  ultimately have "0 < exp x + sum_list (map exp xs)" by (rule add_pos_nonneg [rotated])
  then show ?case by simp
qed

lemma sum_list_divide: "sum_list (map (\<lambda>x. f x / c) xs) = sum_list (map f xs) / (c :: real)"
  by (induction xs) (simp_all add: add_divide_distrib)

lemma softmax_sum: "xs \<noteq> [] \<Longrightarrow> sum_list (softmax xs) = 1"
  using sum_exp_pos [of xs] by (simp add: softmax_def sum_list_divide)

lemma softmax_range:
  assumes "p \<in> set (softmax xs)"
  shows "0 \<le> p \<and> p \<le> 1"
proof -
  from assms obtain x where x: "x \<in> set xs" and p: "p = exp x / sum_list (map exp xs)"
    by (auto simp: softmax_def)
  have "xs \<noteq> []" using x by auto
  then have pos: "0 < sum_list (map exp xs)" by (rule sum_exp_pos)
  have "exp x \<le> sum_list (map exp xs)"
    by (rule member_le_sum_list) (use x in auto)
  with pos show ?thesis unfolding p by simp
qed

subsection \<open>The shapes are kept\<close>

lemma shaped_init: "shaped (length (targets d)) (init_state d)"
  by (simp add: shaped_def init_state_def zeros3_def)

lemma set_delivered: "set (delivered inp) \<subseteq> set (order inp)"
  unfolding delivered_take by (rule set_take_subset)

lemma distinct_delivered: "distinct (order inp) \<Longrightarrow> distinct (delivered inp)"
  unfolding delivered_take by (rule distinct_take)

lemma length_delivered: "length (delivered inp) = 128 * (length (order inp) div 128)"
  unfolding delivered_take by simp

lemma recorded_slot_shape:
  assumes "length slot = n" and "\<forall>row\<in>set slot. length row = num_class"
    and "\<forall>i\<in>set (order inp). length (outputs inp i) = num_class"
  shows "length (recorded_slot inp slot) = n \<and>
         (\<forall>row\<in>set (recorded_slot inp slot). length row = num_class)"
proof -
  let ?rows = "map (\<lambda>i. softmax (outputs inp i)) (delivered inp)"
  have "\<forall>row\<in>set ?rows. length row = num_class"
    using assms(3) set_delivered [of inp] by auto
  moreover have "set (recorded_slot inp slot) \<subseteq> set slot \<union> set ?rows"
    unfolding recorded_slot_def by (rule set_write_rows)
  ultimately have "\<forall>row\<in>set (recorded_slot inp slot). length row = num_class"
    using assms(2) by blast
  then show ?thesis using assms(1) by (simp add: recorded_slot_def)
qed

lemma shaped_pre_correct:
  assumes "shaped n st" and "epoch_ok n inp" and "pre_correct e inp st = Inr st1"
  shows "shaped n st1"
proof -
  have len: "length (output_record st) = 30" using assms(1) by (simp add: shaped_def)
  let ?s = "e mod 30"
  have s: "?s < length (output_record st)" using len by simp
  then have mem: "output_record st ! ?s \<in> set (output_record st)" by (rule nth_mem)
  have old: "length (output_record st ! ?s) = n"
    "\<forall>row\<in>set (output_record st ! ?s). length row = num_class"
    using assms(1) mem by (auto simp: shaped_def)
  have new: "length (recorded_slot inp (output_record st ! ?s)) = n \<and>
    (\<forall>row\<in>set (recorded_slot inp (output_record st ! ?s)). length row = num_class)"
    by (rule recorded_slot_shape [OF old]) (use assms(2) in \<open>simp add: epoch_ok_def\<close>)
  have "set (output_record st1) \<subseteq>
          insert (recorded_slot inp (output_record st ! ?s)) (set (output_record st))"
    unfolding pre_correct_fields(1) [OF assms(3) len] by (rule set_update_subset_insert)
  with new assms(1) have "\<forall>slot\<in>set (output_record st1).
        length slot = n \<and> (\<forall>row\<in>set slot. length row = num_class)"
    unfolding shaped_def by blast
  then show ?thesis
    using assms(1) pre_correct_fields(1,2) [OF assms(3) len] by (simp add: shaped_def)
qed

lemma shaped_correct: "shaped n st \<Longrightarrow> correct srt e st = Inr st' \<Longrightarrow> shaped n st'"
  using correct_Inr [of srt e st st'] by (simp add: shaped_def)

lemma shaped_epoch_body:
  "shaped n st \<Longrightarrow> epoch_ok n inp \<Longrightarrow> epoch_body srt e inp st = Inr st' \<Longrightarrow> shaped n st'"
  unfolding epoch_body_Inr using shaped_pre_correct shaped_correct by blast

lemma shaped_run:
  "shaped n st \<Longrightarrow> \<forall>inp\<in>set ins. epoch_ok n inp \<Longrightarrow> run_epochs srt e ins st = Inr st' \<Longrightarrow>
     shaped n st'"
proof (induction ins arbitrary: e st)
  case Nil
  then show ?case by simp
next
  case (Cons inp ins)
  from Cons.prems(3) obtain st1 where 1: "epoch_body srt e inp st = Inr st1"
    and 2: "run_epochs srt (Suc e) ins st1 = Inr st'"
    by (auto simp: then_do_eq_Inr)
  have "shaped n st1" using Cons.prems(1,2) 1 by (auto intro: shaped_epoch_body)
  then show ?case using Cons.IH [OF _ _ 2] Cons.prems(2) by simp
qed

lemma shaped_slot:
  "shaped n st \<Longrightarrow> s < 30 \<Longrightarrow>
     length (output_record st ! s) = n \<and> (\<forall>row\<in>set (output_record st ! s). length row = num_class)"
  using nth_mem [of s "output_record st"] by (auto simp: shaped_def)

subsection \<open>Runs of several epochs\<close>

lemma run_epochs_append:
  "run_epochs srt e (xs @ ys) st = then_do (run_epochs srt e xs st) (run_epochs srt (e + length xs) ys)"
proof (induction xs arbitrary: e st)
  case Nil
  then show ?case by simp
next
  case (Cons x xs)
  show ?case
  proof (cases "epoch_body srt e x st")
    case (Inl f)
    then show ?thesis by simp
  next
    case (Inr st1)
    then show ?thesis using Cons.IH [of "Suc e" st1] by simp
  qed
qed

lemma run_epochs_snoc:
  "run_epochs srt e (xs @ [x]) st = then_do (run_epochs srt e xs st) (epoch_body srt (e + length xs) x)"
proof (cases "run_epochs srt e xs st")
  case (Inl f)
  then show ?thesis by (simp add: run_epochs_append)
next
  case (Inr st1)
  then show ?thesis
    by (cases "epoch_body srt (e + length xs) x st1") (simp_all add: run_epochs_append)
qed

lemma epoch_body_frame:
  assumes "epoch_body srt e inp st = Inr st'" and "length (output_record st) = 30" and "s \<noteq> e mod 30"
  shows "output_record st' ! s = output_record st ! s \<and> val_record st' ! s = val_record st ! s"
proof -
  from assms(1) obtain st1 where 1: "pre_correct e inp st = Inr st1" and 2: "correct srt e st1 = Inr st'"
    unfolding epoch_body_Inr by blast
  show ?thesis
    using correct_Inr [OF 2] pre_correct_fields(1,2) [OF 1 assms(2)] assms(3) by simp
qed

lemma epoch_body_lengths:
  assumes "epoch_body srt e inp st = Inr st'" and "length (output_record st) = 30"
  shows "length (output_record st') = 30 \<and> length (val_record st') = length (val_record st)"
proof -
  from assms(1) obtain st1 where 1: "pre_correct e inp st = Inr st1" and 2: "correct srt e st1 = Inr st'"
    unfolding epoch_body_Inr by blast
  show ?thesis
    using correct_Inr [OF 2] pre_correct_fields(1,2) [OF 1 assms(2)] assms(2) by simp
qed

lemma run_frame:
  "run_epochs srt e ins st = Inr st' \<Longrightarrow> length (output_record st) = 30 \<Longrightarrow>
   \<forall>j<length ins. (e + j) mod 30 \<noteq> s \<Longrightarrow>
     output_record st' ! s = output_record st ! s \<and> val_record st' ! s = val_record st ! s \<and>
     length (output_record st') = 30 \<and> length (val_record st') = length (val_record st)"
proof (induction ins arbitrary: e st)
  case Nil
  then show ?case by simp
next
  case (Cons inp ins)
  from Cons.prems(1) obtain st1 where 1: "epoch_body srt e inp st = Inr st1"
    and 2: "run_epochs srt (Suc e) ins st1 = Inr st'"
    by (auto simp: then_do_eq_Inr)
  have s: "s \<noteq> e mod 30" using Cons.prems(3) by force
  have rest: "\<forall>j<length ins. (Suc e + j) mod 30 \<noteq> s"
  proof (intro allI impI)
    fix j assume "j < length ins"
    then have "Suc j < length (inp # ins)" by simp
    with Cons.prems(3) have "(e + Suc j) mod 30 \<noteq> s" by blast
    then show "(Suc e + j) mod 30 \<noteq> s" by simp
  qed
  from epoch_body_lengths [OF 1 Cons.prems(2)] have len: "length (output_record st1) = 30"
    and lenv: "length (val_record st1) = length (val_record st)" by auto
  from Cons.IH [OF 2 len rest] epoch_body_frame [OF 1 Cons.prems(2) s] lenv
  show ?case by simp
qed

subsection \<open>What a slot holds after a training pass\<close>

lemma epoch_ok_length: "epoch_ok n inp \<Longrightarrow> length (order inp) = n"
  using distinct_card [of "order inp"] by (simp add: epoch_ok_def)

lemma recorded_slot_nth:
  assumes "distinct (order inp)" and "i < length slot"
  shows "recorded_slot inp slot ! i =
           (if i \<in> set (delivered inp) then softmax (outputs inp i) else slot ! i)"
proof (cases "i \<in> set (delivered inp)")
  case True
  have "distinct (delivered inp)" using assms(1) by (rule distinct_delivered)
  from write_rows_written [OF this True assms(2), of "\<lambda>i. softmax (outputs inp i)"] True
  show ?thesis by (simp add: recorded_slot_def)
next
  case False
  then show ?thesis by (simp add: recorded_slot_def write_rows_other)
qed

lemma length_recorded_slot [simp]: "length (recorded_slot inp slot) = length slot"
  by (simp add: recorded_slot_def)

lemma train_pass_Inr:
  assumes "train_pass e inp st = Inr st'" and "length (output_record st) = 30"
  shows "output_record st' = (output_record st)
           [e mod 30 := recorded_slot inp (output_record st ! (e mod 30))]"
  using assms(1) unfolding train_pass_eq [OF assms(2)] by (auto split: if_splits)

lemma softmax_row_ok:
  assumes "length xs = num_class"
  shows "length (softmax xs) = num_class \<and> sum_list (softmax xs) = 1 \<and>
         (\<forall>p\<in>set (softmax xs). 0 \<le> p \<and> p \<le> 1)"
proof -
  have "xs \<noteq> []" using assms by (auto simp: num_class_def)
  then show ?thesis using assms softmax_range [of _ xs] by (simp add: softmax_sum)
qed

text \<open>
  Claim C3, as amended. After the training pass of epoch \<open>e\<close>, row \<open>e mod 30\<close> of the
  buffer holds, for every example the loader delivered in that epoch, the softmax of the
  scores the network gave it: \<open>num_class\<close> entries between 0 and 1 that sum to 1. The
  loader delivers the first \<open>128 * (n div 128)\<close> examples of the sampler's order; the
  rows of the others are left as they were.
\<close>

theorem train_pass_records_delivered:
  assumes "shaped n st" and "epoch_ok n inp" and "train_pass e inp st = Inr st'"
  shows "length (delivered inp) = 128 * (n div 128) \<and> distinct (delivered inp) \<and>
         (\<forall>i\<in>set (delivered inp). i < n \<and>
            output_record st' ! (e mod 30) ! i = softmax (outputs inp i) \<and>
            length (softmax (outputs inp i)) = num_class \<and>
            sum_list (softmax (outputs inp i)) = 1 \<and>
            (\<forall>p\<in>set (softmax (outputs inp i)). 0 \<le> p \<and> p \<le> 1)) \<and>
         (\<forall>i<n. i \<notin> set (delivered inp) \<longrightarrow>
            output_record st' ! (e mod 30) ! i = output_record st ! (e mod 30) ! i)"
proof -
  let ?s = "e mod 30"
  have len: "length (output_record st) = 30" using assms(1) by (simp add: shaped_def)
  have slot: "length (output_record st ! ?s) = n" using shaped_slot [OF assms(1), of ?s] by simp
  have ord: "distinct (order inp)" "set (order inp) = {..<n}"
    "\<forall>i\<in>set (order inp). length (outputs inp i) = num_class"
    using assms(2) by (simp_all add: epoch_ok_def)
  have new: "output_record st' ! ?s = recorded_slot inp (output_record st ! ?s)"
    using train_pass_Inr [OF assms(3) len] len by simp
  have "length (delivered inp) = 128 * (n div 128)"
    using length_delivered [of inp] epoch_ok_length [OF assms(2)] by simp
  moreover have "distinct (delivered inp)" using ord(1) by (rule distinct_delivered)
  moreover have "\<forall>i\<in>set (delivered inp). i < n \<and>
            output_record st' ! ?s ! i = softmax (outputs inp i) \<and>
            length (softmax (outputs inp i)) = num_class \<and>
            sum_list (softmax (outputs inp i)) = 1 \<and>
            (\<forall>p\<in>set (softmax (outputs inp i)). 0 \<le> p \<and> p \<le> 1)"
  proof
    fix i assume i: "i \<in> set (delivered inp)"
    then have io: "i \<in> set (order inp)" using set_delivered [of inp] by blast
    then have "i < n" using ord(2) by simp
    moreover have "output_record st' ! ?s ! i = softmax (outputs inp i)"
      using recorded_slot_nth [OF ord(1), of i "output_record st ! ?s"] slot \<open>i < n\<close> i new by simp
    moreover have "length (outputs inp i) = num_class" using ord(3) io by blast
    ultimately show "i < n \<and>
            output_record st' ! ?s ! i = softmax (outputs inp i) \<and>
            length (softmax (outputs inp i)) = num_class \<and>
            sum_list (softmax (outputs inp i)) = 1 \<and>
            (\<forall>p\<in>set (softmax (outputs inp i)). 0 \<le> p \<and> p \<le> 1)"
      using softmax_row_ok [of "outputs inp i"] by simp
  qed
  moreover have "\<forall>i<n. i \<notin> set (delivered inp) \<longrightarrow>
            output_record st' ! ?s ! i = output_record st ! ?s ! i"
    using recorded_slot_nth [OF ord(1), of _ "output_record st ! ?s"] slot new by simp
  ultimately show ?thesis by blast
qed

subsection \<open>The concrete epochs\<close>

lemma fixed_in_simps [simp]:
  "order (fixed_in ord row) = ord" "outputs (fixed_in ord row) i = row"
  "val_total (fixed_in ord row) = 2" "val_correct (fixed_in ord row) = 1"
  by (simp_all add: fixed_in_def)

lemma val_acc_fixed_in [simp]: "val_acc (fixed_in ord row) = 50"
  by (simp add: val_acc_def)

lemma delivered_fixed_in: "delivered (fixed_in ord row) = take (128 * (length ord div 128)) ord"
  by (simp add: delivered_take)

lemma length_rows [simp]: "length row_a = 10" "length row_b = 10"
  by (simp_all add: row_a_def row_b_def)

lemma softmax_row_a: "softmax row_a = replicate 10 (1 / 10)"
  by (simp add: softmax_def row_a_def sum_list_replicate)

lemma softmax_row_b: "softmax row_b = [1/90, 9/10, 1/90, 1/90, 1/90, 1/90, 1/90, 1/90, 1/90, 1/90]"
  by (simp add: softmax_def row_b_def)

lemma softmax_rows_differ: "softmax row_a \<noteq> softmax row_b"
proof
  assume "softmax row_a = softmax row_b"
  then have "softmax row_a ! 0 = softmax row_b ! 0" by simp
  then show False by (simp add: softmax_row_a softmax_row_b)
qed

lemma epoch_ok_upt: "length row = 10 \<Longrightarrow> epoch_ok n (fixed_in [0..<n] row)"
  by (auto simp: epoch_ok_def num_class_def)

lemma shaped_main_init: "shaped (length labels) (init_state (load_Animal10 labels))"
  using shaped_init [of "load_Animal10 labels"] by (simp add: load_Animal10_def)

text \<open>
  Claim C3, as it was stated, fails: with 129 training examples the loader delivers one
  batch of 128 and drops the last example of the sampler's order. After the training
  pass of epoch 0 the row of example 128 still holds the zeros it was initialised to,
  which sum to 0.
\<close>

theorem train_pass_drops_last_batch:
  "buffer_row (train_pass 0 (fixed_in [0..<129] row_a)
                 (init_state (load_Animal10 (replicate 129 0)))) 0 128 = Some (replicate 10 0) \<and>
   sum_list (replicate 10 (0::real)) = 0"
proof -
  let ?inp = "fixed_in [0..<129] row_a"
  let ?st = "init_state (load_Animal10 (replicate 129 0))"
  have len: "length (output_record ?st) = 30" by (simp add: init_state_def zeros3_def)
  have d: "delivered ?inp = [0..<128]" by (simp add: delivered_fixed_in)
  have slot0: "output_record ?st ! 0 = replicate 129 (replicate 10 0)"
    by (simp add: init_state_def zeros3_def load_Animal10_def num_class_def)
  have "recorded_slot ?inp (output_record ?st ! 0) ! 128 = output_record ?st ! 0 ! 128"
    using recorded_slot_nth [of ?inp 128 "output_record ?st ! 0"] d slot0 by simp
  then have row: "recorded_slot ?inp (output_record ?st ! 0) ! 128 = replicate 10 0"
    by (simp add: slot0)
  show ?thesis
    unfolding train_pass_eq [OF len] using d row len
    by (simp add: buffer_row_def sum_list_replicate)
qed

theorem train_pass_records_delivered_witness:
  "shaped 129 (init_state (load_Animal10 (replicate 129 0))) \<and>
   epoch_ok 129 (fixed_in [0..<129] row_a) \<and>
   buffer_row (train_pass 0 (fixed_in [0..<129] row_a)
                 (init_state (load_Animal10 (replicate 129 0)))) 0 5 = Some (replicate 10 (1 / 10)) \<and>
   length (delivered (fixed_in [0..<129] row_a)) = 128"
proof -
  let ?inp = "fixed_in [0..<129] row_a"
  let ?st = "init_state (load_Animal10 (replicate 129 0))"
  have sh: "shaped 129 ?st" using shaped_main_init [of "replicate 129 0"] by simp
  have ok: "epoch_ok 129 ?inp" by (rule epoch_ok_upt) simp
  have len: "length (output_record ?st) = 30" using sh by (simp add: shaped_def)
  have d: "delivered ?inp = [0..<128]" by (simp add: delivered_fixed_in)
  obtain st' where st': "train_pass 0 ?inp ?st = Inr st'"
    unfolding train_pass_eq [OF len] using d by simp
  from train_pass_records_delivered [OF sh ok st'] d
  have "output_record st' ! 0 ! 5 = softmax row_a" by simp
  then show ?thesis using sh ok st' d by (simp add: buffer_row_def softmax_row_a)
qed

subsection \<open>Epochs before the warm-up\<close>

lemma epoch_body_early:
  "e < 40 \<Longrightarrow> epoch_body srt e inp st = pre_correct e inp st"
  by (cases "pre_correct e inp st") (simp_all add: epoch_body_def correct_before_warm_up)

lemma pre_correct_ok:
  assumes "length (output_record st) = 30" and "delivered inp \<noteq> []" and "val_total inp \<noteq> 0"
  shows "\<exists>st1. pre_correct e inp st = Inr st1"
  using assms by (simp add: pre_correct_Inr)

lemma run_early_ok:
  "length (output_record st) = 30 \<Longrightarrow>
   \<forall>inp\<in>set ins. delivered inp \<noteq> [] \<and> val_total inp \<noteq> 0 \<Longrightarrow> e + length ins \<le> 40 \<Longrightarrow>
     \<exists>st'. run_epochs srt e ins st = Inr st'"
proof (induction ins arbitrary: e st)
  case Nil
  then show ?case by simp
next
  case (Cons inp ins)
  have e: "e < 40" using Cons.prems(3) by simp
  obtain st1 where 1: "pre_correct e inp st = Inr st1"
    using pre_correct_ok [OF Cons.prems(1), of inp e] Cons.prems(2) by auto
  then have b: "epoch_body srt e inp st = Inr st1" using e by (simp add: epoch_body_early)
  have "length (output_record st1) = 30"
    using epoch_body_lengths [OF b Cons.prems(1)] by simp
  from Cons.IH [OF this, of "Suc e"] Cons.prems(2,3) b show ?case by simp
qed

subsection \<open>One epoch, and the epoch thirty epochs later\<close>

lemma epoch_body_slot:
  assumes "epoch_body srt e inp st = Inr st'" and "shaped n st" and "epoch_ok n inp"
  shows "val_record st' ! (e mod 30) = val_acc inp"
    and "\<forall>i\<in>set (delivered inp). output_record st' ! (e mod 30) ! i = softmax (outputs inp i)"
    and "\<forall>i<n. i \<notin> set (delivered inp) \<longrightarrow>
           output_record st' ! (e mod 30) ! i = output_record st ! (e mod 30) ! i"
proof -
  let ?s = "e mod 30"
  have len: "length (output_record st) = 30" and lenv: "length (val_record st) = 30"
    using assms(2) by (simp_all add: shaped_def)
  have slot: "length (output_record st ! ?s) = n" using shaped_slot [OF assms(2), of ?s] by simp
  have ord: "distinct (order inp)" "set (order inp) = {..<n}"
    using assms(3) by (simp_all add: epoch_ok_def)
  from assms(1) obtain st1 where 1: "pre_correct e inp st = Inr st1"
    and 2: "correct srt e st1 = Inr st'"
    unfolding epoch_body_Inr by blast
  have new: "output_record st' ! ?s = recorded_slot inp (output_record st ! ?s)"
    and val: "val_record st' = (val_record st)[?s := val_acc inp]"
    using correct_Inr [OF 2] pre_correct_fields(1,2) [OF 1 len] len by simp_all
  show "val_record st' ! ?s = val_acc inp" using val lenv by simp
  have dn: "\<forall>i\<in>set (delivered inp). i < n" using set_delivered [of inp] ord(2) by auto
  show "\<forall>i\<in>set (delivered inp). output_record st' ! ?s ! i = softmax (outputs inp i)"
    using recorded_slot_nth [OF ord(1), of _ "output_record st ! ?s"] slot new dn by simp
  show "\<forall>i<n. i \<notin> set (delivered inp) \<longrightarrow>
           output_record st' ! ?s ! i = output_record st ! ?s ! i"
    using recorded_slot_nth [OF ord(1), of _ "output_record st ! ?s"] slot new by simp
qed

lemma between_slots: "j < 29 \<Longrightarrow> (Suc e + j) mod 30 \<noteq> e mod 30"
proof
  assume j: "j < 29" and "(Suc e + j) mod 30 = e mod 30"
  then have "30 dvd (Suc e + j) - e" by (simp add: mod_eq_dvd_iff_nat)
  then have "30 dvd Suc j" by simp
  then show False using j nat_dvd_not_less [of "Suc j" 30] by simp
qed

lemma slot_after_thirty:
  assumes "shaped n st" and "epoch_ok n inp" and "\<forall>x\<in>set mid. epoch_ok n x"
    and "epoch_ok n inp'" and "length mid = 29"
    and "epoch_body srt e inp st = Inr st1"
    and "run_epochs srt (Suc e) mid st1 = Inr st2"
    and "epoch_body srt (e + 30) inp' st2 = Inr st3"
  shows "val_record st3 ! (e mod 30) = val_acc inp'"
    and "\<forall>i\<in>set (delivered inp'). output_record st3 ! (e mod 30) ! i = softmax (outputs inp' i)"
    and "\<forall>i\<in>set (delivered inp). i \<notin> set (delivered inp') \<longrightarrow>
           output_record st3 ! (e mod 30) ! i = softmax (outputs inp i)"
proof -
  let ?s = "e mod 30"
  have s: "(e + 30) mod 30 = ?s" by simp
  have sh1: "shaped n st1" using shaped_epoch_body [OF assms(1,2,6)] .
  have sh2: "shaped n st2" using shaped_run [OF sh1 assms(3,7)] .
  have len1: "length (output_record st1) = 30" using sh1 by (simp add: shaped_def)
  have "\<forall>j<length mid. (Suc e + j) mod 30 \<noteq> ?s" using assms(5) between_slots by simp
  from run_frame [OF assms(7) len1 this]
  have keep: "output_record st2 ! ?s = output_record st1 ! ?s" by simp
  note first = epoch_body_slot [OF assms(6) assms(1,2)]
  note last = epoch_body_slot [OF assms(8) sh2 assms(4), unfolded s]
  show "val_record st3 ! ?s = val_acc inp'" using last(1) .
  show "\<forall>i\<in>set (delivered inp'). output_record st3 ! ?s ! i = softmax (outputs inp' i)"
    using last(2) .
  have dn: "\<forall>i\<in>set (delivered inp). i < n"
    using set_delivered [of inp] assms(2) by (auto simp: epoch_ok_def)
  show "\<forall>i\<in>set (delivered inp). i \<notin> set (delivered inp') \<longrightarrow>
           output_record st3 ! ?s ! i = softmax (outputs inp i)"
    using last(3) first(2) keep dn by simp
qed

lemma delivered_all:
  assumes "epoch_ok n inp" and "n mod 128 = 0"
  shows "set (delivered inp) = {..<n}"
proof -
  have n: "length (order inp) = n" using assms(1) by (rule epoch_ok_length)
  have "128 dvd n" using assms(2) by (simp add: mod_eq_0_iff_dvd)
  then have "128 * (n div 128) = n" by (rule dvd_mult_div_cancel)
  then have "delivered inp = order inp" using n by (simp add: delivered_take)
  then show ?thesis using assms(1) by (simp add: epoch_ok_def)
qed

text \<open>
  Claim C6, as amended. An epoch \<open>e\<close> that returns writes slot \<open>e mod 30\<close> of the buffer
  and of the ledger and leaves every other slot of both as it was. When epoch \<open>e + 30\<close>
  has run, ledger slot \<open>e mod 30\<close> holds the accuracy of epoch \<open>e + 30\<close>, and buffer
  slot \<open>e mod 30\<close> holds the rows of epoch \<open>e + 30\<close> for the examples the loader
  delivered in epoch \<open>e + 30\<close>; an example delivered in epoch \<open>e\<close> and dropped in epoch
  \<open>e + 30\<close> still has its row of epoch \<open>e\<close> there. When the batch size divides the
  number of examples no example is dropped, and only the rows of epoch \<open>e + 30\<close> are left.
\<close>

theorem cyclic_overwrite_of_delivered:
  assumes "shaped n st" and "epoch_ok n inp" and "\<forall>x\<in>set mid. epoch_ok n x"
    and "epoch_ok n inp'" and "length mid = 29"
    and "epoch_body srt e inp st = Inr st1"
    and "run_epochs srt (Suc e) mid st1 = Inr st2"
    and "epoch_body srt (e + 30) inp' st2 = Inr st3"
  shows "(\<forall>s<30. s \<noteq> e mod 30 \<longrightarrow>
            output_record st1 ! s = output_record st ! s \<and>
            val_record st1 ! s = val_record st ! s) \<and>
         val_record st1 ! (e mod 30) = val_acc inp \<and>
         (\<forall>i\<in>set (delivered inp). output_record st1 ! (e mod 30) ! i = softmax (outputs inp i)) \<and>
         val_record st3 ! (e mod 30) = val_acc inp' \<and>
         (\<forall>i\<in>set (delivered inp').
            output_record st3 ! (e mod 30) ! i = softmax (outputs inp' i)) \<and>
         (\<forall>i\<in>set (delivered inp). i \<notin> set (delivered inp') \<longrightarrow>
            output_record st3 ! (e mod 30) ! i = softmax (outputs inp i)) \<and>
         (n mod 128 = 0 \<longrightarrow>
            (\<forall>i<n. output_record st3 ! (e mod 30) ! i = softmax (outputs inp' i)))"
proof -
  have len: "length (output_record st) = 30" using assms(1) by (simp add: shaped_def)
  have frame: "\<forall>s<30. s \<noteq> e mod 30 \<longrightarrow>
            output_record st1 ! s = output_record st ! s \<and>
            val_record st1 ! s = val_record st ! s"
    using epoch_body_frame [OF assms(6) len] by blast
  note first = epoch_body_slot [OF assms(6) assms(1,2)]
  note after = slot_after_thirty [OF assms]
  have "n mod 128 = 0 \<longrightarrow>
            (\<forall>i<n. output_record st3 ! (e mod 30) ! i = softmax (outputs inp' i))"
    using after(2) delivered_all [OF assms(4)] by auto
  with frame first(1,2) after show ?thesis by blast
qed

lemma early_three:
  assumes "length (output_record st) = 30" and "e + 30 < 40" and "length mid = 29"
    and "delivered x \<noteq> [] \<and> val_total x \<noteq> 0"
    and "\<forall>m\<in>set mid. delivered m \<noteq> [] \<and> val_total m \<noteq> 0"
    and "delivered y \<noteq> [] \<and> val_total y \<noteq> 0"
  shows "\<exists>st1 st2 st3. epoch_body srt e x st = Inr st1 \<and>
           run_epochs srt (Suc e) mid st1 = Inr st2 \<and>
           epoch_body srt (e + 30) y st2 = Inr st3 \<and>
           run_epochs srt e (x # mid @ [y]) st = Inr st3"
proof -
  obtain st1 where "pre_correct e x st = Inr st1"
    using pre_correct_ok [OF assms(1), of x e] assms(4) by auto
  then have 1: "epoch_body srt e x st = Inr st1" using assms(2) by (simp add: epoch_body_early)
  have len1: "length (output_record st1) = 30"
    using epoch_body_lengths [OF 1 assms(1)] by simp
  obtain st2 where 2: "run_epochs srt (Suc e) mid st1 = Inr st2"
    using run_early_ok [OF len1 assms(5), of "Suc e" srt] assms(2,3) by auto
  have "\<forall>j<length mid. (Suc e + j) mod 30 \<noteq> 30"
  proof (intro allI impI)
    fix j
    have "(Suc e + j) mod 30 < 30" by simp
    then show "(Suc e + j) mod 30 \<noteq> 30" by (rule less_imp_neq)
  qed
  from run_frame [OF 2 len1 this] have len2: "length (output_record st2) = 30" by simp
  obtain st3 where "pre_correct (e + 30) y st2 = Inr st3"
    using pre_correct_ok [OF len2, of y "e + 30"] assms(6) by auto
  then have 3: "epoch_body srt (e + 30) y st2 = Inr st3"
    using assms(2) by (simp add: epoch_body_early)
  have "run_epochs srt e (x # mid @ [y]) st = Inr st3"
    using 1 2 3 assms(3) by (simp add: run_epochs_snoc add.commute)
  with 1 2 3 show ?thesis by blast
qed

lemma delivered_129: "delivered (fixed_in [0..<129] row) = [0..<128]"
  by (simp add: delivered_fixed_in)

lemma delivered_129_rotated: "delivered (fixed_in ([1..<129] @ [0]) row) = [1..<129]"
  by (simp add: delivered_fixed_in)

lemma delivered_128: "delivered (fixed_in [0..<128] row) = [0..<128]"
  by (simp add: delivered_fixed_in)

lemma epoch_ok_rotated: "length row = 10 \<Longrightarrow> epoch_ok 129 (fixed_in ([1..<129] @ [0]) row)"
  by (auto simp: epoch_ok_def num_class_def)

text \<open>
  Claim C6, as it was stated, fails in its second half: with 129 training examples,
  epoch 0 delivers the examples 0 to 127 and epoch 30, whose sampler starts at example 1,
  delivers the examples 1 to 128. After epoch 30, slot 0 holds the row of epoch 30 for
  example 1 and still the row of epoch 0 for example 0.
\<close>

theorem dropped_example_keeps_old_row:
  "buffer_row (main argsort_stable (replicate 129 0)
      (fixed_in [0..<129] row_a # replicate 29 (fixed_in [0..<129] row_b) @
       [fixed_in ([1..<129] @ [0]) row_b])) 0 0 = Some (softmax row_a) \<and>
   buffer_row (main argsort_stable (replicate 129 0)
      (fixed_in [0..<129] row_a # replicate 29 (fixed_in [0..<129] row_b) @
       [fixed_in ([1..<129] @ [0]) row_b])) 0 1 = Some (softmax row_b) \<and>
   softmax row_a \<noteq> softmax row_b"
proof -
  let ?st = "init_state (load_Animal10 (replicate 129 0))"
  let ?x = "fixed_in [0..<129] row_a"
  let ?mid = "replicate 29 (fixed_in [0..<129] row_b)"
  let ?y = "fixed_in ([1..<129] @ [0]) row_b"
  have sh: "shaped 129 ?st" using shaped_main_init [of "replicate 129 0"] by simp
  then have len: "length (output_record ?st) = 30" by (simp add: shaped_def)
  have okx: "epoch_ok 129 ?x" by (rule epoch_ok_upt) simp
  have okm: "\<forall>m\<in>set ?mid. epoch_ok 129 m" by (simp add: epoch_ok_upt)
  have oky: "epoch_ok 129 ?y" by (rule epoch_ok_rotated) simp
  have e30: "(0::nat) + 30 < 40" and l29: "length ?mid = 29" by simp_all
  have prex: "delivered ?x \<noteq> [] \<and> val_total ?x \<noteq> 0"
    and prem: "\<forall>m\<in>set ?mid. delivered m \<noteq> [] \<and> val_total m \<noteq> 0"
    by (simp_all add: delivered_129)
  have prey: "delivered ?y \<noteq> [] \<and> val_total ?y \<noteq> 0"
    unfolding delivered_129_rotated by simp
  have x0: "0 \<in> set (delivered ?x)" unfolding delivered_129 by simp
  have y0: "0 \<notin> set (delivered ?y)" and y1: "1 \<in> set (delivered ?y)"
    unfolding delivered_129_rotated by simp_all
  obtain st1 st2 st3 where 1: "epoch_body argsort_stable 0 ?x ?st = Inr st1"
    and 2: "run_epochs argsort_stable (Suc 0) ?mid st1 = Inr st2"
    and 3: "epoch_body argsort_stable (0 + 30) ?y st2 = Inr st3"
    and run: "run_epochs argsort_stable 0 (?x # ?mid @ [?y]) ?st = Inr st3"
    using early_three [OF len e30 l29 prex prem prey, of argsort_stable] by blast
  note slot = slot_after_thirty [OF sh okx okm oky l29 1 2 3]
  have "output_record st3 ! (0 mod 30) ! 0 = softmax (outputs ?x 0)"
    using slot(3) x0 y0 by blast
  moreover have "output_record st3 ! (0 mod 30) ! 1 = softmax (outputs ?y 1)"
    using slot(2) y1 by blast
  ultimately show ?thesis
    using run softmax_rows_differ by (simp add: main_def buffer_row_def)
qed

theorem cyclic_overwrite_of_delivered_witness:
  "shaped 128 (init_state (load_Animal10 (replicate 128 0))) \<and>
   epoch_ok 128 (fixed_in [0..<128] row_a) \<and> epoch_ok 128 (fixed_in [0..<128] row_b) \<and>
   buffer_row (main argsort_stable (replicate 128 0)
      (fixed_in [0..<128] row_a # replicate 29 (fixed_in [0..<128] row_a) @
       [fixed_in [0..<128] row_b])) 0 0 = Some (softmax row_b)"
proof -
  let ?st = "init_state (load_Animal10 (replicate 128 0))"
  let ?x = "fixed_in [0..<128] row_a"
  let ?mid = "replicate 29 (fixed_in [0..<128] row_a)"
  let ?y = "fixed_in [0..<128] row_b"
  have sh: "shaped 128 ?st" using shaped_main_init [of "replicate 128 0"] by simp
  then have len: "length (output_record ?st) = 30" by (simp add: shaped_def)
  have okx: "epoch_ok 128 ?x" by (rule epoch_ok_upt) simp
  have okm: "\<forall>m\<in>set ?mid. epoch_ok 128 m" by (simp add: epoch_ok_upt)
  have oky: "epoch_ok 128 ?y" by (rule epoch_ok_upt) simp
  have e30: "(0::nat) + 30 < 40" and l29: "length ?mid = 29" by simp_all
  have prex: "delivered ?x \<noteq> [] \<and> val_total ?x \<noteq> 0"
    and prem: "\<forall>m\<in>set ?mid. delivered m \<noteq> [] \<and> val_total m \<noteq> 0"
    and prey: "delivered ?y \<noteq> [] \<and> val_total ?y \<noteq> 0"
    by (simp_all add: delivered_128)
  obtain st1 st2 st3 where 1: "epoch_body argsort_stable 0 ?x ?st = Inr st1"
    and 2: "run_epochs argsort_stable (Suc 0) ?mid st1 = Inr st2"
    and 3: "epoch_body argsort_stable (0 + 30) ?y st2 = Inr st3"
    and run: "run_epochs argsort_stable 0 (?x # ?mid @ [?y]) ?st = Inr st3"
    using early_three [OF len e30 l29 prex prem prey, of argsort_stable] by blast
  from cyclic_overwrite_of_delivered [OF sh okx okm oky l29 1 2 3]
  have "output_record st3 ! 0 ! 0 = softmax row_b" by simp
  then show ?thesis
    using run sh okx oky by (simp add: main_def buffer_row_def)
qed

section \<open>The last thirty epochs\<close>

lemma mod_differ:
  fixes e k :: nat
  assumes "e < k" and "k < e + 30"
  shows "e mod 30 \<noteq> k mod 30"
proof
  assume "e mod 30 = k mod 30"
  then have "k mod 30 = e mod 30" by simp
  then have "30 dvd k - e" using assms(1) by (simp add: mod_eq_dvd_iff_nat)
  then show False using assms nat_dvd_not_less [of "k - e" 30] by simp
qed

lemma cyclic_step:
  assumes "length v = 30" and "\<forall>e<k. k \<le> e + 30 \<longrightarrow> P e (v ! (e mod 30))" and "P k x"
  shows "\<forall>e<Suc k. Suc k \<le> e + 30 \<longrightarrow> P e (v[k mod 30 := x] ! (e mod 30))"
proof (intro allI impI)
  fix e
  assume e: "e < Suc k" "Suc k \<le> e + 30"
  show "P e (v[k mod 30 := x] ! (e mod 30))"
  proof (cases "e = k")
    case True
    then show ?thesis using assms(1,3) by simp
  next
    case False
    then have ek: "e < k" "k < e + 30" using e by simp_all
    then have "e mod 30 \<noteq> k mod 30" by (rule mod_differ)
    moreover have "P e (v ! (e mod 30))" using assms(2) ek by simp
    ultimately show ?thesis by simp
  qed
qed

lemma slot_epoch:
  fixes E s :: nat
  assumes "29 \<le> E" and "s < 30"
  shows "\<exists>e\<le>E. e mod 30 = s \<and> E < e + 30"
proof -
  let ?q = "(E - s) div 30" and ?r = "(E - s) mod 30"
  have "E - s = 30 * ?q + ?r" by simp
  moreover have "?r < 30" by simp
  ultimately have "30 * ?q + s \<le> E" and "E < 30 * ?q + s + 30" using assms by linarith+
  moreover have "(30 * ?q + s) mod 30 = s" using assms(2) by simp
  ultimately show ?thesis by blast
qed

lemma epoch_body_fields:
  assumes "epoch_body srt e inp st = Inr st'" and "length (output_record st) = 30"
  shows "output_record st' = (output_record st)
           [e mod 30 := recorded_slot inp (output_record st ! (e mod 30))]"
    and "val_record st' = (val_record st)[e mod 30 := val_acc inp]"
proof -
  from assms(1) obtain st1 where 1: "pre_correct e inp st = Inr st1"
    and 2: "correct srt e st1 = Inr st'"
    unfolding epoch_body_Inr by blast
  show "output_record st' = (output_record st)
           [e mod 30 := recorded_slot inp (output_record st ! (e mod 30))]"
    and "val_record st' = (val_record st)[e mod 30 := val_acc inp]"
    using correct_Inr [OF 2] pre_correct_fields(1,2) [OF 1 assms(2)] by simp_all
qed

lemma run_ledger:
  "run_epochs srt 0 ins st = Inr st' \<Longrightarrow> length (output_record st) = 30 \<Longrightarrow>
   length (val_record st) = 30 \<Longrightarrow>
     length (output_record st') = 30 \<and> length (val_record st') = 30 \<and>
     (\<forall>e<length ins. length ins \<le> e + 30 \<longrightarrow> val_record st' ! (e mod 30) = val_acc (ins ! e))"
proof (induction ins arbitrary: st' rule: rev_induct)
  case Nil
  then show ?case by simp
next
  case (snoc x xs)
  from snoc.prems(1) obtain st1 where 1: "run_epochs srt 0 xs st = Inr st1"
    and 2: "epoch_body srt (length xs) x st1 = Inr st'"
    by (auto simp: run_epochs_snoc then_do_eq_Inr)
  note ih = snoc.IH [OF 1 snoc.prems(2,3)]
  have len: "length (output_record st1) = 30" "length (val_record st1) = 30"
    using ih by simp_all
  note f = epoch_body_fields [OF 2 len(1)]
  have inv: "\<forall>e<length xs. length xs \<le> e + 30 \<longrightarrow>
               val_record st1 ! (e mod 30) = val_acc ((xs @ [x]) ! e)"
    using ih by (simp add: nth_append)
  have "\<forall>e<Suc (length xs). Suc (length xs) \<le> e + 30 \<longrightarrow>
          (val_record st1)[length xs mod 30 := val_acc x] ! (e mod 30) = val_acc ((xs @ [x]) ! e)"
    by (rule cyclic_step [where P = "\<lambda>e a. a = val_acc ((xs @ [x]) ! e)", OF len(2) inv]) simp
  then show ?case using f len by simp
qed

lemma at_correction_Inr:
  "at_correction srt E labels ins = Inr st \<longleftrightarrow>
     (\<exists>st0. main srt labels (take E ins) = Inr st0 \<and> pre_correct E (ins ! E) st0 = Inr st)"
  by (simp add: at_correction_def then_do_eq_Inr)

lemma init_lengths:
  "length (output_record (init_state d)) = 30" "length (val_record (init_state d)) = 30"
  by (simp_all add: init_state_def zeros3_def)

lemma at_correction_ledger:
  assumes "at_correction srt E labels ins = Inr st" and "E < length ins"
  shows "length (val_record st) = 30 \<and>
         (\<forall>e<Suc E. Suc E \<le> e + 30 \<longrightarrow> val_record st ! (e mod 30) = val_acc (ins ! e))"
proof -
  from assms(1) obtain st0 where 1: "main srt labels (take E ins) = Inr st0"
    and 2: "pre_correct E (ins ! E) st0 = Inr st"
    unfolding at_correction_Inr by blast
  have lenE: "length (take E ins) = E" using assms(2) by simp
  from run_ledger [OF 1 [unfolded main_def] init_lengths]
  have len: "length (output_record st0) = 30" "length (val_record st0) = 30"
    and inv: "\<forall>e<E. E \<le> e + 30 \<longrightarrow> val_record st0 ! (e mod 30) = val_acc (ins ! e)"
    unfolding lenE by simp_all
  have "\<forall>e<Suc E. Suc E \<le> e + 30 \<longrightarrow>
          (val_record st0)[E mod 30 := val_acc (ins ! E)] ! (e mod 30) = val_acc (ins ! e)"
    by (rule cyclic_step [where P = "\<lambda>e a. a = val_acc (ins ! e)", OF len(2) inv]) simp
  then show ?thesis using pre_correct_fields(2) [OF 2 len(1)] len(2) by simp
qed

lemma ind_slots:
  assumes "ascending_permutation v (srt v)" and "length v = 30"
  shows "topK srt 10 v = drop 20 (srt v)" and "length (topK srt 10 v) = 10"
    and "distinct (topK srt 10 v)" and "set (topK srt 10 v) \<subseteq> {..<30}"
proof -
  have l: "length (srt v) = 30" using ascending_permutation_length [OF assms(1)] assms(2) by simp
  show d: "topK srt 10 v = drop 20 (srt v)" using topK_drop [of v srt 10, OF assms(1)] assms(2) by simp
  show "length (topK srt 10 v) = 10" using d l by simp
  show "distinct (topK srt 10 v)" using d assms(1) by (simp add: ascending_permutation_def)
  have "set (drop 20 (srt v)) \<subseteq> set (srt v)" by (rule set_drop_subset)
  then show "set (topK srt 10 v) \<subseteq> {..<30}"
    using d assms by (simp add: ascending_permutation_def)
qed

lemma at_correction_ok:
  assumes "E \<le> 40" and "E < length ins"
    and "\<forall>inp\<in>set ins. delivered inp \<noteq> [] \<and> val_total inp \<noteq> 0"
  shows "\<exists>st. at_correction srt E labels ins = Inr st"
proof -
  have "\<forall>inp\<in>set (take E ins). delivered inp \<noteq> [] \<and> val_total inp \<noteq> 0"
    using assms(3) by (auto dest: in_set_takeD)
  from run_early_ok [where e = 0 and srt = srt, OF init_lengths(1) this] assms(1,2)
  obtain st0 where 1: "main srt labels (take E ins) = Inr st0" by (auto simp: main_def)
  from run_ledger [OF 1 [unfolded main_def] init_lengths]
  have "length (output_record st0) = 30" by simp
  from pre_correct_ok [OF this, of "ins ! E" E] assms(2,3)
  obtain st where "pre_correct E (ins ! E) st0 = Inr st" by auto
  with 1 show ?thesis unfolding at_correction_Inr by blast
qed

text \<open>
  Claim C10. At the correction of an epoch \<open>E\<close> from 40 on (line 138), every one of the
  30 slots of the validation ledger holds the accuracy that the validation pass of an
  epoch of this run wrote there, namely of the one epoch among the last 30 (\<open>E - 29\<close> to
  \<open>E\<close>) whose number is the slot's modulo 30. The ten slots the selection returns are
  among them: none holds the zero the ledger was initialised with.
\<close>

theorem ledger_full_at_correction:
  assumes "at_correction srt E labels ins = Inr st" and "E < length ins" and "40 \<le> E"
  shows "length (val_record st) = 30 \<and>
         (\<forall>s<30. \<exists>e\<le>E. e mod 30 = s \<and> E < e + 30 \<and> val_record st ! s = val_acc (ins ! e)) \<and>
         (ascending_permutation (val_record st) (srt (val_record st)) \<longrightarrow>
            (\<forall>s\<in>set (ind srt st). \<exists>e\<le>E. e mod 30 = s \<and> E < e + 30 \<and>
               val_record st ! s = val_acc (ins ! e)))"
proof -
  note led = at_correction_ledger [OF assms(1,2)]
  have all: "\<forall>s<30. \<exists>e\<le>E. e mod 30 = s \<and> E < e + 30 \<and> val_record st ! s = val_acc (ins ! e)"
  proof (intro allI impI)
    fix s :: nat
    assume "s < 30"
    then obtain e where e: "e \<le> E" "e mod 30 = s" "E < e + 30"
      using slot_epoch [of E s] assms(3) by auto
    then have "e < Suc E" and "Suc E \<le> e + 30" by simp_all
    then have "val_record st ! (e mod 30) = val_acc (ins ! e)" using led by blast
    with e show "\<exists>e\<le>E. e mod 30 = s \<and> E < e + 30 \<and> val_record st ! s = val_acc (ins ! e)"
      by blast
  qed
  have "ascending_permutation (val_record st) (srt (val_record st)) \<longrightarrow>
            (\<forall>s\<in>set (ind srt st). \<exists>e\<le>E. e mod 30 = s \<and> E < e + 30 \<and>
               val_record st ! s = val_acc (ins ! e))"
  proof (intro impI ballI)
    fix s
    assume "ascending_permutation (val_record st) (srt (val_record st))" and "s \<in> set (ind srt st)"
    then have "s < 30" using ind_slots(4) [of "val_record st" srt] led by (auto simp: ind_def)
    with all show "\<exists>e\<le>E. e mod 30 = s \<and> E < e + 30 \<and> val_record st ! s = val_acc (ins ! e)"
      by blast
  qed
  with all led show ?thesis by blast
qed

theorem ledger_full_at_correction_witness:
  "40 < length (replicate 41 (fixed_in [0..<128] row_a)) \<and>
   ledger_of (at_correction argsort_stable 40 (replicate 128 0)
                (replicate 41 (fixed_in [0..<128] row_a))) = Some (replicate 30 50) \<and>
   ascending_permutation (replicate 30 50) (argsort_stable (replicate 30 50))"
proof -
  let ?ins = "replicate 41 (fixed_in [0..<128] row_a)"
  obtain st where st: "at_correction argsort_stable 40 (replicate 128 0) ?ins = Inr st"
    using at_correction_ok [of 40 ?ins argsort_stable "replicate 128 0"]
    by (auto simp: delivered_128)
  have l: "40 < length ?ins" by simp
  from ledger_full_at_correction [OF st l]
  have len: "length (val_record st) = 30"
    and all: "\<forall>s<30. \<exists>e\<le>40. e mod 30 = s \<and> 40 < e + 30 \<and> val_record st ! s = val_acc (?ins ! e)"
    by simp_all
  have "val_record st = replicate 30 50"
  proof (rule nth_equalityI)
    show "length (val_record st) = length (replicate 30 (50::real))" using len by simp
  next
    fix s assume "s < length (val_record st)"
    then have s: "s < 30" using len by simp
    then obtain e where "e \<le> 40" "val_record st ! s = val_acc (?ins ! e)" using all by blast
    then show "val_record st ! s = replicate 30 50 ! s" using s by simp
  qed
  then show ?thesis using st argsort_stable_ascending by (simp add: ledger_of_def)
qed

section \<open>The average over the selected epochs\<close>

lemma matrix_add_shape:
  assumes "length a = n" and "length b = n"
    and "\<forall>i<n. length (a ! i) = c" and "\<forall>i<n. length (b ! i) = c"
  shows "length (matrix_add a b) = n \<and>
         (\<forall>i<n. length (matrix_add a b ! i) = c \<and>
            (\<forall>j<c. matrix_add a b ! i ! j = a ! i ! j + b ! i ! j))"
  using assms by (simp add: matrix_add_def)

lemma foldl_matrix_add:
  "length t0 = n \<and> (\<forall>i<n. length (t0 ! i) = c) \<Longrightarrow>
   \<forall>t\<in>set ts. length t = n \<and> (\<forall>i<n. length (t ! i) = c) \<Longrightarrow>
     length (foldl matrix_add t0 ts) = n \<and>
     (\<forall>i<n. length (foldl matrix_add t0 ts ! i) = c \<and>
        (\<forall>j<c. foldl matrix_add t0 ts ! i ! j = t0 ! i ! j + (\<Sum>t\<leftarrow>ts. t ! i ! j)))"
proof (induction ts arbitrary: t0)
  case Nil
  then show ?case by simp
next
  case (Cons t ts)
  have t: "length t = n" "\<forall>i<n. length (t ! i) = c" using Cons.prems(2) by simp_all
  have t0: "length t0 = n" "\<forall>i<n. length (t0 ! i) = c" using Cons.prems(1) by simp_all
  note m = matrix_add_shape [OF t0(1) t(1) t0(2) t(2)]
  have 1: "length (matrix_add t0 t) = n \<and> (\<forall>i<n. length (matrix_add t0 t ! i) = c)"
    using m by simp
  have 2: "\<forall>t\<in>set ts. length t = n \<and> (\<forall>i<n. length (t ! i) = c)" using Cons.prems(2) by simp
  from Cons.IH [OF 1 2] m show ?case by (simp add: add.assoc)
qed

lemma mean0_nth:
  assumes "ts \<noteq> []" and "\<forall>t\<in>set ts. length t = n \<and> (\<forall>i<n. length (t ! i) = c)"
  shows "length (mean0 ts) = n \<and>
         (\<forall>i<n. length (mean0 ts ! i) = c \<and>
            (\<forall>j<c. mean0 ts ! i ! j = (\<Sum>t\<leftarrow>ts. t ! i ! j) / real (length ts)))"
proof -
  from assms(1) obtain t0 rest where ts: "ts = t0 # rest" by (cases ts) auto
  have 1: "length t0 = n \<and> (\<forall>i<n. length (t0 ! i) = c)" using assms(2) ts by simp
  have 2: "\<forall>t\<in>set rest. length t = n \<and> (\<forall>i<n. length (t ! i) = c)" using assms(2) ts by simp
  from foldl_matrix_add [OF 1 2] show ?thesis by (simp add: mean0_def ts)
qed

lemma slot_rows:
  assumes "shaped n st" and "s < 30"
  shows "length (output_record st ! s) = n \<and> (\<forall>i<n. length (output_record st ! s ! i) = num_class)"
  using shaped_slot [OF assms] by simp

lemma output_selected_mean:
  assumes "shaped n st" and "ascending_permutation (val_record st) (srt (val_record st))"
  shows "length (output_selected srt st) = n \<and>
         (\<forall>i<n. length (output_selected srt st ! i) = num_class \<and>
            (\<forall>j<num_class. output_selected srt st ! i ! j =
               (\<Sum>s\<leftarrow>ind srt st. output_record st ! s ! i ! j) / 10))"
proof -
  have lv: "length (val_record st) = 30" using assms(1) by (simp add: shaped_def)
  note sel = ind_slots [of "val_record st" srt, OF assms(2) lv, folded ind_def]
  let ?ts = "map (\<lambda>s. output_record st ! s) (ind srt st)"
  have ne: "?ts \<noteq> []" using sel(2) by auto
  have sh: "\<forall>t\<in>set ?ts. length t = n \<and> (\<forall>i<n. length (t ! i) = num_class)"
    using sel(4) slot_rows [OF assms(1)] by auto
  have sum: "(\<Sum>t\<leftarrow>?ts. t ! i ! j) = (\<Sum>s\<leftarrow>ind srt st. output_record st ! s ! i ! j)" for i j
    by (simp add: comp_def)
  from mean0_nth [OF ne sh] show ?thesis
    unfolding sum output_selected_def using sel(2) by simp
qed

lemma shaped_at_correction:
  assumes "at_correction srt E labels ins = Inr st" and "E < length ins"
    and "\<forall>inp\<in>set ins. epoch_ok (length labels) inp"
  shows "shaped (length labels) st"
proof -
  from assms(1) obtain st0 where 1: "main srt labels (take E ins) = Inr st0"
    and 2: "pre_correct E (ins ! E) st0 = Inr st"
    unfolding at_correction_Inr by blast
  have "\<forall>inp\<in>set (take E ins). epoch_ok (length labels) inp"
    using assms(3) by (auto dest: in_set_takeD)
  from shaped_run [OF shaped_main_init this 1 [unfolded main_def]]
  have "shaped (length labels) st0" .
  moreover have "epoch_ok (length labels) (ins ! E)" using assms(2,3) by simp
  ultimately show ?thesis using 2 by (rule shaped_pre_correct)
qed


section \<open>A run whose epochs are all alike\<close>

lemma recorded_slot_delivered:
  assumes "epoch_ok n inp" and "length slot = n"
  shows "\<forall>i\<in>set (delivered inp). recorded_slot inp slot ! i = softmax (outputs inp i)"
proof
  fix i assume i: "i \<in> set (delivered inp)"
  have "distinct (order inp)" "set (order inp) = {..<n}" using assms(1) by (simp_all add: epoch_ok_def)
  moreover from this i have "i < length slot" using set_delivered [of inp] assms(2) by auto
  ultimately show "recorded_slot inp slot ! i = softmax (outputs inp i)"
    using i by (simp add: recorded_slot_nth)
qed

lemma run_buffer:
  "run_epochs srt 0 ins st = Inr st' \<Longrightarrow> shaped n st \<Longrightarrow> \<forall>inp\<in>set ins. epoch_ok n inp \<Longrightarrow>
     \<forall>e<length ins. length ins \<le> e + 30 \<longrightarrow>
       (\<forall>i\<in>set (delivered (ins ! e)).
          output_record st' ! (e mod 30) ! i = softmax (outputs (ins ! e) i))"
proof (induction ins arbitrary: st' rule: rev_induct)
  case Nil
  then show ?case by simp
next
  case (snoc x xs)
  let ?k = "length xs"
  let ?P = "\<lambda>e slot. \<forall>i\<in>set (delivered ((xs @ [x]) ! e)).
              slot ! i = softmax (outputs ((xs @ [x]) ! e) i)"
  from snoc.prems(1) obtain st1 where 1: "run_epochs srt 0 xs st = Inr st1"
    and 2: "epoch_body srt ?k x st1 = Inr st'"
    by (auto simp: run_epochs_snoc then_do_eq_Inr)
  have oks: "\<forall>inp\<in>set xs. epoch_ok n inp" and okx: "epoch_ok n x" using snoc.prems(3) by simp_all
  have sh1: "shaped n st1" using shaped_run [OF snoc.prems(2) oks 1] .
  then have len: "length (output_record st1) = 30" by (simp add: shaped_def)
  have slot: "length (output_record st1 ! (?k mod 30)) = n"
    using slot_rows [OF sh1, of "?k mod 30"] by simp
  have inv: "\<forall>e<?k. ?k \<le> e + 30 \<longrightarrow> ?P e (output_record st1 ! (e mod 30))"
    using snoc.IH [OF 1 snoc.prems(2) oks] by (simp add: nth_append)
  have new: "?P ?k (recorded_slot x (output_record st1 ! (?k mod 30)))"
    using recorded_slot_delivered [OF okx slot] by simp
  have "\<forall>e<Suc ?k. Suc ?k \<le> e + 30 \<longrightarrow>
          ?P e ((output_record st1)[?k mod 30 := recorded_slot x (output_record st1 ! (?k mod 30))]
                  ! (e mod 30))"
    using len inv new by (rule cyclic_step)
  then show ?case unfolding epoch_body_fields(1) [OF 2 len] by simp
qed

lemma at_correction_buffer:
  assumes "at_correction srt E labels ins = Inr st" and "E < length ins"
    and "\<forall>inp\<in>set ins. epoch_ok (length labels) inp"
  shows "\<forall>e<Suc E. Suc E \<le> e + 30 \<longrightarrow>
           (\<forall>i\<in>set (delivered (ins ! e)).
              output_record st ! (e mod 30) ! i = softmax (outputs (ins ! e) i))"
proof -
  let ?n = "length labels"
  let ?P = "\<lambda>e slot. \<forall>i\<in>set (delivered (ins ! e)). slot ! i = softmax (outputs (ins ! e) i)"
  from assms(1) obtain st0 where 1: "main srt labels (take E ins) = Inr st0"
    and 2: "pre_correct E (ins ! E) st0 = Inr st"
    unfolding at_correction_Inr by blast
  have oks: "\<forall>inp\<in>set (take E ins). epoch_ok ?n inp"
    using assms(3) by (auto dest: in_set_takeD)
  have okx: "epoch_ok ?n (ins ! E)" using assms(2,3) by simp
  have lenE: "length (take E ins) = E" using assms(2) by simp
  have sh0: "shaped ?n st0" using shaped_run [OF shaped_main_init oks 1 [unfolded main_def]] .
  then have len: "length (output_record st0) = 30" by (simp add: shaped_def)
  have slot: "length (output_record st0 ! (E mod 30)) = ?n"
    using slot_rows [OF sh0, of "E mod 30"] by simp
  have inv: "\<forall>e<E. E \<le> e + 30 \<longrightarrow> ?P e (output_record st0 ! (e mod 30))"
    using run_buffer [OF 1 [unfolded main_def] shaped_main_init oks] unfolding lenE by simp
  have new: "?P E (recorded_slot (ins ! E) (output_record st0 ! (E mod 30)))"
    using recorded_slot_delivered [OF okx slot] by simp
  have "\<forall>e<Suc E. Suc E \<le> e + 30 \<longrightarrow>
          ?P e ((output_record st0)[E mod 30 := recorded_slot (ins ! E) (output_record st0 ! (E mod 30))]
                  ! (e mod 30))"
    using len inv new by (rule cyclic_step)
  then show ?thesis unfolding pre_correct_fields(1) [OF 2 len] by simp
qed

lemma pre_correct_state:
  "trainset (state_of (pre_correct e inp st)) = trainset st \<and>
   current_thd (state_of (pre_correct e inp st)) = current_thd st"
  by (simp add: pre_correct_def train_pass_def validate_def then_do_def state_of_def Let_def)

lemma run_early_state:
  "e + length ins \<le> 40 \<Longrightarrow>
     trainset (state_of (run_epochs srt e ins st)) = trainset st \<and>
     current_thd (state_of (run_epochs srt e ins st)) = current_thd st"
proof (induction ins arbitrary: e st)
  case Nil
  then show ?case by (simp add: state_of_def)
next
  case (Cons inp ins)
  have e: "e < 40" and rest: "Suc e + length ins \<le> 40" using Cons.prems by simp_all
  show ?case
  proof (cases "pre_correct e inp st")
    case (Inl f)
    then show ?thesis using pre_correct_state [of e inp st] e by (simp add: epoch_body_early)
  next
    case (Inr st1)
    then show ?thesis
      using pre_correct_state [of e inp st] Cons.IH [OF rest, of st1] e
      by (simp add: epoch_body_early state_of_def)
  qed
qed

lemma selected_of_uniform:
  assumes "shaped n st" and "ascending_permutation (val_record st) (srt (val_record st))"
    and "length p = num_class" and "\<forall>s<30. \<forall>i<n. output_record st ! s ! i = p"
  shows "output_selected srt st = replicate n p"
proof -
  have lv: "length (val_record st) = 30" using assms(1) by (simp add: shaped_def)
  note sel = ind_slots [of "val_record st" srt, OF assms(2) lv, folded ind_def]
  note m = output_selected_mean [where srt = srt and st = st, OF assms(1,2)]
  have entry: "output_selected srt st ! i ! j = p ! j" if "i < n" "j < num_class" for i j
  proof -
    have "(\<Sum>s\<leftarrow>ind srt st. output_record st ! s ! i ! j) = (\<Sum>s\<leftarrow>ind srt st. p ! j)"
      using sel(4) assms(4) that(1) by (intro arg_cong [where f = sum_list] map_cong) auto
    then have sum: "(\<Sum>s\<leftarrow>ind srt st. output_record st ! s ! i ! j) = 10 * (p ! j)"
      using sel(2) by (simp add: sum_list_triv)
    have "output_selected srt st ! i ! j =
            (\<Sum>s\<leftarrow>ind srt st. output_record st ! s ! i ! j) / 10"
      using m that by blast
    then show ?thesis unfolding sum by simp
  qed
  have row: "output_selected srt st ! i = p" if "i < n" for i
    using m that assms(3) entry [OF that] by (intro nth_equalityI) simp_all
  show ?thesis using m row by (intro nth_equalityI) simp_all
qed

lemma uniform_at_correction:
  assumes "length labels = 128" and "length row = 10" and "29 \<le> E" and "E \<le> 40" and "E < m"
  shows "\<exists>st. at_correction srt E labels (replicate m (fixed_in [0..<128] row)) = Inr st \<and>
              trainset st = load_Animal10 labels \<and> current_thd st = 3 / 10 \<and> shaped 128 st \<and>
              (\<forall>s<30. \<forall>i<128. output_record st ! s ! i = softmax row)"
proof -
  let ?x = "fixed_in [0..<128] row"
  let ?ins = "replicate m ?x"
  have lm: "E < length ?ins" using assms(5) by simp
  have pre: "\<forall>inp\<in>set ?ins. delivered inp \<noteq> [] \<and> val_total inp \<noteq> 0"
    by (simp add: delivered_128)
  have oks: "\<forall>inp\<in>set ?ins. epoch_ok (length labels) inp"
    using assms(1,2) epoch_ok_upt [of row 128] by simp
  obtain st where st: "at_correction srt E labels ?ins = Inr st"
    using at_correction_ok [OF assms(4) lm pre] by blast
  from st obtain st0 where 1: "main srt labels (take E ?ins) = Inr st0"
    and 2: "pre_correct E (?ins ! E) st0 = Inr st"
    unfolding at_correction_Inr by blast
  have "length (take E ?ins) = E" using lm by simp
  then have "0 + length (take E ?ins) \<le> 40" using assms(4) by simp
  from run_early_state [OF this, of srt "init_state (load_Animal10 labels)"] 1
  have st0: "trainset st0 = load_Animal10 labels" "current_thd st0 = 3 / 10"
    by (simp_all add: main_def state_of_def init_state_def)
  have keep: "trainset st = load_Animal10 labels" "current_thd st = 3 / 10"
    using pre_correct_state [of E "?ins ! E" st0] 2 st0 by (simp_all add: state_of_def)
  have sh: "shaped 128 st" using shaped_at_correction [OF st lm oks] assms(1) by simp
  note buf = at_correction_buffer [OF st lm oks]
  have "\<forall>s<30. \<forall>i<128. output_record st ! s ! i = softmax row"
  proof (intro allI impI)
    fix s i :: nat
    assume s: "s < 30" and i: "i < 128"
    obtain e where e: "e \<le> E" "e mod 30 = s" "E < e + 30"
      using slot_epoch [OF assms(3) s] by blast
    then have "e < Suc E" and "Suc E \<le> e + 30" by simp_all
    then have "\<forall>i\<in>set (delivered (?ins ! e)).
                 output_record st ! (e mod 30) ! i = softmax (outputs (?ins ! e) i)"
      using buf by blast
    moreover have "?ins ! e = ?x" using e(1) assms(5) by simp
    ultimately show "output_record st ! s ! i = softmax row"
      using i e(2) by (simp add: delivered_128)
  qed
  with st keep sh show ?thesis by blast
qed


section \<open>The correction step\<close>



lemma epoch_body_correct:
  "pre_correct E inp st = Inr st1 \<Longrightarrow> epoch_body srt E inp st = correct srt E st1"
  by (simp add: epoch_body_def)

lemma correct_Inl:
  assumes "40 \<le> E"
    and "lrt_correction (passed_labels st) (output_selected srt st) (current_thd st) thd_increment
           = Inl err"
  shows "correct srt E st = Inl (err, st)"
  using assms by (simp add: correct_def)

lemma correct_applied:
  assumes "40 \<le> E"
    and "lrt_correction (passed_labels st) (output_selected srt st) (current_thd st) thd_increment
           = Inr (y, thd)"
  shows "correct srt E st =
           Inr (st\<lparr>trainset := update_corrupted_label (trainset st) y, current_thd := thd\<rparr>)"
  using assms by (simp add: correct_def)

text \<open>
  Claim C9. When the engine raises at the correction of an epoch \<open>E\<close> from 40 on, the
  epoch raises the same error and so does the run, line 141 is not reached, and the data
  set at that moment is the one the epoch began with: training and validation do not
  touch it, and the engine was given a copy of the labels.
\<close>

theorem failed_correction_keeps_labels:
  assumes "40 \<le> E" and "pre_correct E inp st = Inr st1"
    and "lrt_correction (passed_labels st1) (output_selected srt st1) (current_thd st1) thd_increment
           = Inl err"
  shows "epoch_body srt E inp st = Inl (err, st1) \<and>
         run_epochs srt E (inp # rest) st = Inl (err, st1) \<and>
         trainset (state_of (epoch_body srt E inp st)) = trainset st \<and>
         trainset (state_of (run_epochs srt E (inp # rest) st)) = trainset st \<and>
         current_thd (state_of (epoch_body srt E inp st)) = current_thd st"
proof -
  have b: "epoch_body srt E inp st = Inl (err, st1)"
    using epoch_body_correct [OF assms(2)] correct_Inl [OF assms(1,3)] by simp
  have "trainset st1 = trainset st" "current_thd st1 = current_thd st"
    using pre_correct_state [of E inp st] assms(2) by (simp_all add: state_of_def)
  with b show ?thesis by (simp add: state_of_def)
qed

section \<open>The threshold\<close>

lemma lrt_correction_Inr:
  "lrt_correction ls rows t d = Inr (y, t') \<Longrightarrow>
     relabel_all t ls rows = Inr y \<and> t' = min (t + d) 1"
  by (auto simp: lrt_correction_def then_do_def split: sum.splits)

lemma correct_threshold:
  "correct srt E st = Inr st' \<Longrightarrow>
     current_thd st' = (if 40 \<le> E then min (current_thd st + thd_increment) 1 else current_thd st)"
  by (auto simp: correct_def dest: lrt_correction_Inr split: if_splits sum.splits)

lemma epoch_body_threshold:
  assumes "epoch_body srt E inp st = Inr st'"
  shows "current_thd st' = (if 40 \<le> E then min (current_thd st + thd_increment) 1 else current_thd st)"
proof -
  from assms obtain st1 where 1: "pre_correct E inp st = Inr st1" and 2: "correct srt E st1 = Inr st'"
    unfolding epoch_body_Inr by blast
  have "current_thd st1 = current_thd st"
    using pre_correct_state [of E inp st] 1 by (simp add: state_of_def)
  then show ?thesis using correct_threshold [OF 2] by simp
qed

lemma min_step:
  fixes a d :: real
  assumes "0 \<le> d"
  shows "min (min a 1 + d) 1 = min (a + d) 1"
  using assms by (simp add: min_def)

lemma run_threshold:
  "run_epochs srt 0 ins st = Inr st' \<Longrightarrow> current_thd st \<le> 1 \<Longrightarrow>
     current_thd st' = min (current_thd st + real (length ins - 40) * thd_increment) 1"
proof (induction ins arbitrary: st' rule: rev_induct)
  case Nil
  then show ?case by simp
next
  case (snoc x xs)
  from snoc.prems(1) obtain st1 where 1: "run_epochs srt 0 xs st = Inr st1"
    and 2: "epoch_body srt (length xs) x st1 = Inr st'"
    by (auto simp: run_epochs_snoc then_do_eq_Inr)
  note ih = snoc.IH [OF 1 snoc.prems(2)]
  show ?case
  proof (cases "40 \<le> length xs")
    case True
    then have k: "real (length (xs @ [x]) - 40) = real (length xs - 40) + 1"
      by (simp add: Suc_diff_le)
    have "current_thd st' = min (current_thd st1 + thd_increment) 1"
      using epoch_body_threshold [OF 2] True by simp
    also have "\<dots> = min (current_thd st + real (length xs - 40) * thd_increment + thd_increment) 1"
      unfolding ih by (rule min_step) (simp add: thd_increment_def)
    finally show ?thesis unfolding k by (simp add: algebra_simps)
  next
    case False
    then show ?thesis using epoch_body_threshold [OF 2] ih by simp
  qed
qed

text \<open>
  Claim C4. The increment is the positive constant 1/10 and the threshold starts at
  3/10. The engine returns \<open>min (current_threshold + threshold_increment) 1\<close>, and
  that is what the driver keeps after a correction. A run of \<open>main\<close> that returns
  after \<open>n\<close> epochs has made \<open>n - 40\<close> corrections and ends with the threshold
  \<open>min (3/10 + (n - 40) / 10) 1\<close>: it never exceeds 1, and a longer run does not end
  with a smaller one.
\<close>

theorem threshold_monotone_and_capped:
  "0 < thd_increment \<and> thd_increment = 1 / 10 \<and> current_thd (init_state d) = 3 / 10 \<and>
   (lrt_correction ls rows t inc = Inr (y, t') \<longrightarrow> t' = min (t + inc) 1) \<and>
   (40 \<le> E \<and> correct srt E st = Inr st' \<longrightarrow>
      current_thd st' = min (current_thd st + thd_increment) 1 \<and> current_thd st' \<le> 1 \<and>
      (current_thd st \<le> 1 \<longrightarrow> current_thd st \<le> current_thd st')) \<and>
   (main srt labels ins = Inr st2 \<longrightarrow>
      current_thd st2 = min (3 / 10 + real (length ins - 40) * thd_increment) 1 \<and>
      current_thd st2 \<le> 1 \<and>
      (main srt labels (take m ins) = Inr st1 \<longrightarrow> current_thd st1 \<le> current_thd st2))"
proof -
  have inc: "0 < thd_increment" "thd_increment = 1 / 10" by (simp_all add: thd_increment_def)
  have init: "current_thd (init_state d) = 3 / 10" for d by (simp add: init_state_def)
  have eng: "lrt_correction ls rows t inc = Inr (y, t') \<longrightarrow> t' = min (t + inc) 1"
    using lrt_correction_Inr by blast
  have step: "40 \<le> E \<and> correct srt E st = Inr st' \<longrightarrow>
      current_thd st' = min (current_thd st + thd_increment) 1 \<and> current_thd st' \<le> 1 \<and>
      (current_thd st \<le> 1 \<longrightarrow> current_thd st \<le> current_thd st')"
    using inc(1) by (auto dest: correct_threshold)
  have closed: "current_thd s = min (3 / 10 + real (length xs - 40) * thd_increment) 1"
    if "main srt labels xs = Inr s" for xs s
    using run_threshold [OF that [unfolded main_def]] by (simp add: init)
  have run: "main srt labels ins = Inr st2 \<longrightarrow>
      current_thd st2 = min (3 / 10 + real (length ins - 40) * thd_increment) 1 \<and>
      current_thd st2 \<le> 1 \<and>
      (main srt labels (take m ins) = Inr st1 \<longrightarrow> current_thd st1 \<le> current_thd st2)"
  proof (intro impI conjI)
    assume 2: "main srt labels ins = Inr st2"
    show c2: "current_thd st2 = min (3 / 10 + real (length ins - 40) * thd_increment) 1"
      using closed [OF 2] .
    then show "current_thd st2 \<le> 1" by simp
    assume 1: "main srt labels (take m ins) = Inr st1"
    have "length (take m ins) - 40 \<le> length ins - 40" by simp
    then have "real (length (take m ins) - 40) * thd_increment
                 \<le> real (length ins - 40) * thd_increment"
      using inc(1) by (simp only: mult_le_cancel_right_pos of_nat_le_iff)
    then show "current_thd st1 \<le> current_thd st2"
      unfolding closed [OF 1] c2 by (simp add: min_def)
  qed
  from inc init eng step run show ?thesis by blast
qed

section \<open>The labels the engine is given\<close>








text \<open>
  Claim C7. A run of at most 40 epochs, whether it returns or raises, ends with the data
  set it was started with. In an epoch \<open>E\<close> from 40 on in which the engine returns
  \<open>y\<close>, the driver hands \<open>y\<close> to \<open>update_corrupted_label\<close> once, after training and
  validation; the result is the data set the epoch ends with, and the one the next epoch
  trains on and gives its correction.
\<close>

theorem labels_overwritten_from_warm_up_on:
  "(length ins \<le> 40 \<longrightarrow> trainset (state_of (main srt labels ins)) = load_Animal10 labels) \<and>
   (40 \<le> E \<and> pre_correct E inp st = Inr st1 \<and>
    lrt_correction (passed_labels st1) (output_selected srt st1) (current_thd st1) thd_increment
      = Inr (y, thd) \<longrightarrow>
      trainset st1 = trainset st \<and>
      epoch_body srt E inp st =
        Inr (st1\<lparr>trainset := update_corrupted_label (trainset st) y, current_thd := thd\<rparr>) \<and>
      trainset (state_of (epoch_body srt E inp st)) = update_corrupted_label (trainset st) y \<and>
      trainset (state_of (pre_correct (Suc E) inp' (state_of (epoch_body srt E inp st))))
        = update_corrupted_label (trainset st) y)"
proof (intro conjI impI)
  assume "length ins \<le> 40"
  then have "0 + length ins \<le> 40" by simp
  from run_early_state [OF this, of srt "init_state (load_Animal10 labels)"]
  show "trainset (state_of (main srt labels ins)) = load_Animal10 labels"
    by (simp add: main_def init_state_def)
next
  assume a: "40 \<le> E \<and> pre_correct E inp st = Inr st1 \<and>
    lrt_correction (passed_labels st1) (output_selected srt st1) (current_thd st1) thd_increment
      = Inr (y, thd)"
  show keep: "trainset st1 = trainset st"
    using pre_correct_state [of E inp st] a by (simp add: state_of_def)
  have "epoch_body srt E inp st =
          Inr (st1\<lparr>trainset := update_corrupted_label (trainset st1) y, current_thd := thd\<rparr>)"
    using a epoch_body_correct [of E inp st st1 srt] correct_applied [of E st1 srt y thd] by simp
  then show b: "epoch_body srt E inp st =
        Inr (st1\<lparr>trainset := update_corrupted_label (trainset st) y, current_thd := thd\<rparr>)"
    using keep by simp
  then show "trainset (state_of (epoch_body srt E inp st)) = update_corrupted_label (trainset st) y"
    by (simp add: state_of_def)
  then show "trainset (state_of (pre_correct (Suc E) inp' (state_of (epoch_body srt E inp st))))
        = update_corrupted_label (trainset st) y"
    using pre_correct_state [of "Suc E" inp' "state_of (epoch_body srt E inp st)"] by simp
qed

section \<open>A run that reaches the correction\<close>

lemma relabel_all_replicate_Inr:
  "relabel thd l row = Inr l' \<Longrightarrow>
     relabel_all thd (replicate n l) (replicate n row) = Inr (replicate n l')"
  by (induction n) simp_all

lemma relabel_all_replicate_Inl:
  "relabel thd l row = Inl e \<Longrightarrow> 0 < n \<Longrightarrow>
     relabel_all thd (replicate n l) (replicate n row) = Inl e"
  by (cases n) simp_all

lemma relabel_row_b: "relabel (3 / 10) 0 (softmax row_b) = Inr 1"
  by (simp add: softmax_row_b relabel_def best_other_def upt_rec)

lemma relabel_out_of_range: "length row = 10 \<Longrightarrow> relabel thd 10 (softmax row) = Inl IndexError"
  by (simp add: relabel_def)

lemma lrt_correction_row_b:
  "lrt_correction (replicate 128 0) (replicate 128 (softmax row_b)) (3 / 10) thd_increment
     = Inr (replicate 128 1, 2 / 5)"
  by (simp add: lrt_correction_def relabel_all_replicate_Inr [OF relabel_row_b] thd_increment_def)

lemma lrt_correction_out_of_range:
  "length row = 10 \<Longrightarrow>
     lrt_correction (replicate 128 10) (replicate 128 (softmax row)) thd inc = Inl IndexError"
  by (simp add: lrt_correction_def relabel_all_replicate_Inl [OF relabel_out_of_range])

lemma uniform_40:
  assumes "length labels = 128" and "length row = 10" and "40 < m"
  shows "\<exists>st0 st. main argsort_stable labels (take 40 (replicate m (fixed_in [0..<128] row))) = Inr st0 \<and>
           pre_correct 40 (fixed_in [0..<128] row) st0 = Inr st \<and>
           at_correction argsort_stable 40 labels (replicate m (fixed_in [0..<128] row)) = Inr st \<and>
           trainset st0 = load_Animal10 labels \<and> trainset st = load_Animal10 labels \<and>
           current_thd st = 3 / 10 \<and> shaped 128 st \<and> passed_labels st = labels \<and>
           output_selected argsort_stable st = replicate 128 (softmax row)"
proof -
  let ?x = "fixed_in [0..<128] row"
  let ?ins = "replicate m ?x"
  obtain st where st: "at_correction argsort_stable 40 labels ?ins = Inr st"
    and ts: "trainset st = load_Animal10 labels" and thd: "current_thd st = 3 / 10"
    and sh: "shaped 128 st"
    and uni: "\<forall>s<30. \<forall>i<128. output_record st ! s ! i = softmax row"
    using uniform_at_correction [where E = 40 and srt = argsort_stable, OF assms(1,2) _ _ assms(3)]
    by auto
  from st obtain st0 where 1: "main argsort_stable labels (take 40 ?ins) = Inr st0"
    and 2: "pre_correct 40 (?ins ! 40) st0 = Inr st"
    unfolding at_correction_Inr by blast
  have x: "?ins ! 40 = ?x" using assms(3) by simp
  have "trainset st0 = trainset st"
    using pre_correct_state [of 40 "?ins ! 40" st0] 2 by (simp add: state_of_def)
  moreover have "output_selected argsort_stable st = replicate 128 (softmax row)"
    using sh argsort_stable_ascending _ uni
    by (rule selected_of_uniform) (simp add: assms(2) num_class_def)
  moreover have "passed_labels st = labels" using ts by (simp add: passed_labels_def load_Animal10_def)
  ultimately show ?thesis using st ts thd sh 1 2 [unfolded x] by auto
qed

lemma main_41:
  assumes "main srt labels (take 40 (replicate 41 x)) = Inr st0"
  shows "main srt labels (replicate 41 x) = run_epochs srt 40 [x] st0"
proof -
  have "replicate 41 x = take 40 (replicate 41 x) @ [x]"
    using take_Suc_conv_app_nth [of 40 "replicate 41 x"] by simp
  then have "main srt labels (replicate 41 x)
               = run_epochs srt 0 (take 40 (replicate 41 x) @ [x]) (init_state (load_Animal10 labels))"
    by (simp add: main_def)
  also have "\<dots> = run_epochs srt 40 [x] st0"
    unfolding run_epochs_append using assms by (simp add: main_def)
  finally show ?thesis .
qed

theorem failed_correction_keeps_labels_witness:
  "raised (main argsort_stable (replicate 128 10) (replicate 41 (fixed_in [0..<128] row_a)))
     = Some IndexError \<and>
   trainset (state_of (main argsort_stable (replicate 128 10)
                         (replicate 41 (fixed_in [0..<128] row_a))))
     = load_Animal10 (replicate 128 10)"
proof -
  let ?x = "fixed_in [0..<128] row_a"
  let ?labels = "replicate 128 (10::int)"
  obtain st0 st where 1: "main argsort_stable ?labels (take 40 (replicate 41 ?x)) = Inr st0"
    and 2: "pre_correct 40 ?x st0 = Inr st"
    and t0: "trainset st0 = load_Animal10 ?labels"
    and p: "passed_labels st = ?labels"
    and sel: "output_selected argsort_stable st = replicate 128 (softmax row_a)"
    using uniform_40 [of ?labels row_a 41] by auto
  have eng: "lrt_correction (passed_labels st) (output_selected argsort_stable st)
               (current_thd st) thd_increment = Inl IndexError"
    unfolding p sel by (rule lrt_correction_out_of_range) simp
  have w: "(40::nat) \<le> 40" by simp
  from failed_correction_keeps_labels [OF w 2 eng, of "[]"]
  have "run_epochs argsort_stable 40 [?x] st0 = Inl (IndexError, st)"
    and "trainset (state_of (run_epochs argsort_stable 40 [?x] st0)) = trainset st0"
    by blast+
  then show ?thesis unfolding main_41 [OF 1] using t0 by (simp add: raised_def)
qed

theorem threshold_monotone_and_capped_witness:
  "threshold_of (main argsort_stable (replicate 128 0) (replicate 41 (fixed_in [0..<128] row_b)))
     = Some (2 / 5) \<and>
   threshold_of (main argsort_stable (replicate 128 0)
                   (take 40 (replicate 41 (fixed_in [0..<128] row_b)))) = Some (3 / 10) \<and>
   lrt_correction (replicate 128 0) (replicate 128 (softmax row_b)) (3 / 10) thd_increment
     = Inr (replicate 128 1, 2 / 5)"
proof -
  let ?x = "fixed_in [0..<128] row_b"
  let ?labels = "replicate 128 (0::int)"
  obtain st0 st where 1: "main argsort_stable ?labels (take 40 (replicate 41 ?x)) = Inr st0"
    and 2: "pre_correct 40 ?x st0 = Inr st"
    and thd: "current_thd st = 3 / 10"
    and p: "passed_labels st = ?labels"
    and sel: "output_selected argsort_stable st = replicate 128 (softmax row_b)"
    using uniform_40 [of ?labels row_b 41] by auto
  have eng: "lrt_correction (passed_labels st) (output_selected argsort_stable st)
               (current_thd st) thd_increment = Inr (replicate 128 1, 2 / 5)"
    unfolding p sel thd by (rule lrt_correction_row_b)
  let ?st' = "st\<lparr>trainset := update_corrupted_label (trainset st) (replicate 128 1),
                  current_thd := 2 / 5\<rparr>"
  have c: "correct argsort_stable 40 st = Inr ?st'" using correct_applied [OF _ eng] by simp
  have m: "main argsort_stable ?labels (replicate 41 ?x) = Inr ?st'"
    unfolding main_41 [OF 1] using epoch_body_correct [OF 2, of argsort_stable] c by simp
  have "current_thd st0 = current_thd st"
    using pre_correct_state [of 40 ?x st0] 2 by (simp add: state_of_def)
  then have t0: "current_thd st0 = 3 / 10" using thd by simp
  from threshold_monotone_and_capped [where ls = "replicate 128 0"
      and rows = "replicate 128 (softmax row_b)" and t = "3 / 10" and inc = thd_increment
      and y = "replicate 128 1" and t' = "2 / 5" and E = 40 and srt = argsort_stable
      and st = st and st' = ?st' and labels = ?labels and ins = "replicate 41 ?x"
      and ?st2.0 = ?st' and m = 40 and ?st1.0 = st0]
  have "current_thd ?st' = min (3 / 10 + real (length (replicate 41 ?x) - 40) * thd_increment) 1"
    using m c 1 lrt_correction_row_b by blast
  then show ?thesis using m 1 t0 lrt_correction_row_b by (simp add: threshold_of_def)
qed

theorem labels_overwritten_from_warm_up_on_witness:
  "length (replicate 40 (fixed_in [0..<128] row_b)) \<le> 40 \<and>
   trainset (state_of (main argsort_stable (replicate 128 0)
                         (replicate 40 (fixed_in [0..<128] row_b))))
     = load_Animal10 (replicate 128 0) \<and>
   trainset (state_of (main argsort_stable (replicate 128 0)
                         (replicate 41 (fixed_in [0..<128] row_b))))
     = update_corrupted_label (load_Animal10 (replicate 128 0)) (replicate 128 1)"
proof -
  let ?x = "fixed_in [0..<128] row_b"
  let ?labels = "replicate 128 (0::int)"
  obtain st0 st where 1: "main argsort_stable ?labels (take 40 (replicate 41 ?x)) = Inr st0"
    and 2: "pre_correct 40 ?x st0 = Inr st"
    and t0: "trainset st0 = load_Animal10 ?labels"
    and thd: "current_thd st = 3 / 10"
    and p: "passed_labels st = ?labels"
    and sel: "output_selected argsort_stable st = replicate 128 (softmax row_b)"
    using uniform_40 [of ?labels row_b 41] by auto
  have eng: "lrt_correction (passed_labels st) (output_selected argsort_stable st)
               (current_thd st) thd_increment = Inr (replicate 128 1, 2 / 5)"
    unfolding p sel thd by (rule lrt_correction_row_b)
  from labels_overwritten_from_warm_up_on [where ins = "replicate 40 ?x" and srt = argsort_stable
      and labels = ?labels and E = 40 and inp = ?x and st = st0 and ?st1.0 = st
      and y = "replicate 128 1" and thd = "2 / 5" and inp' = ?x] 2 eng
  have a: "trainset (state_of (main argsort_stable ?labels (replicate 40 ?x))) = load_Animal10 ?labels"
    and b: "epoch_body argsort_stable 40 ?x st0 =
        Inr (st\<lparr>trainset := update_corrupted_label (trainset st0) (replicate 128 1),
                current_thd := 2 / 5\<rparr>)"
    by simp_all
  have "main argsort_stable ?labels (replicate 41 ?x) =
          Inr (st\<lparr>trainset := update_corrupted_label (trainset st0) (replicate 128 1),
                  current_thd := 2 / 5\<rparr>)"
    unfolding main_41 [OF 1] using b by simp
  then show ?thesis using a t0 by (simp add: state_of_def)
qed




end
